theory Spec2Isabelle
  imports
    Main
    "HOL-Library.Char_ord"
    "HOL-Library.Code_Target_Nat"
    "HOL-Library.List_Lexorder"
    "HOL-Library.Multiset"
    "HOL-Library.Sublist"
begin

chapter \<open>Ponder: the wordlist generation pipeline\<close>

text \<open>
  A shallow embedding of the generation pipeline of Ponder: the quality filter predicates
  and the chunk sort and aggregate engine of package \<open>utils\<close>, the length enforcement of
  package \<open>models\<close> and the transform stage of package \<open>generate\<close>.

  A Go \<open>string\<close> and a \<open>[]byte\<close> are sequences of bytes: both are modelled as
  \<^typ>\<open>string\<close>, a list of 8-bit characters, and \<open>len\<close> is \<^const>\<open>length\<close>.
  A rune is a natural number (its code point).
\<close>

section \<open>Strings of the Go runtime\<close>

subsection \<open>UTF-8 decoding (\<open>for _, r := range s\<close>)\<close>

definition RuneError :: nat where
  "RuneError = 65533"

text \<open>
  \<open>utf8.DecodeRuneInString\<close>: the first rune of a string and its width in bytes. A byte
  sequence that is not the shortest encoding of a code point (surrogates excluded) gives
  \<open>(RuneError, 1)\<close>.
\<close>

fun DecodeRuneInString :: "string \<Rightarrow> nat \<times> nat" where
  "DecodeRuneInString [] = (RuneError, 0)"
| "DecodeRuneInString (c0 # cs) =
    (let s0 = (of_char c0 :: nat) in
     if s0 < 128 then (s0, 1)
     else if s0 < 194 \<or> 244 < s0 then (RuneError, 1)
     else
       let sz = (if s0 < 224 then 2 else if s0 < 240 then 3 else (4::nat));
           lo = (if s0 = 224 then 160 else if s0 = 240 then 144 else (128::nat));
           hi = (if s0 = 237 then 159 else if s0 = 244 then 143 else (191::nat))
       in if length cs + 1 < sz then (RuneError, 1)
          else let s1 = (of_char (cs ! 0) :: nat) in
            if s1 < lo \<or> hi < s1 then (RuneError, 1)
            else if sz \<le> 2 then ((s0 mod 32) * 64 + s1 mod 64, 2)
            else let s2 = (of_char (cs ! 1) :: nat) in
              if s2 < 128 \<or> 191 < s2 then (RuneError, 1)
              else if sz \<le> 3 then ((s0 mod 16) * 4096 + (s1 mod 64) * 64 + s2 mod 64, 3)
              else let s3 = (of_char (cs ! 2) :: nat) in
                if s3 < 128 \<or> 191 < s3 then (RuneError, 1)
                else ((s0 mod 8) * 262144 + (s1 mod 64) * 4096 + (s2 mod 64) * 64
                        + s3 mod 64, 4))"

lemma DecodeRuneInString_size: "0 < snd (DecodeRuneInString (c # cs))"
  by (simp add: Let_def)

text \<open>The runes of a string in order, each with the bytes it was decoded from.\<close>

function decode :: "string \<Rightarrow> (nat \<times> string) list" where
  "decode s = (if s = [] then [] else
     case DecodeRuneInString s of (r, n) \<Rightarrow> (r, take n s) # decode (drop n s))"
  by pat_completeness auto
termination
proof (relation "measure length")
  fix s :: string and r n :: nat
  assume nonempty: "s \<noteq> []" and dec: "(r, n) = DecodeRuneInString s"
  from nonempty obtain c cs where s: "s = c # cs"
    by (cases s) auto
  have "n = snd (DecodeRuneInString (c # cs))"
    using dec unfolding s by (metis snd_conv)
  then have "0 < n"
    using DecodeRuneInString_size [of c cs] by simp
  then show "(drop n s, s) \<in> measure length"
    by (simp add: s)
qed simp

declare decode.simps [simp del]

lemma decode_Nil [simp, code]: "decode [] = []"
  by (simp add: decode.simps)

lemma decode_Cons [simp, code]:
  "decode (c # cs) =
     (case DecodeRuneInString (c # cs) of
        (r, n) \<Rightarrow> (r, take n (c # cs)) # decode (drop n (c # cs)))"
  by (subst decode.simps) simp

definition runes :: "string \<Rightarrow> nat list" where
  "runes s = map fst (decode s)"

subsection \<open>Unicode classes\<close>

text \<open>
  \<open>unicode.IsLetter\<close>. Below 128 the letters are \<open>A-Z\<close> and \<open>a-z\<close>; \<open>RuneError\<close>
  (U+FFFD) is no letter. For the other code points the answer is a table of the Go
  runtime, which is no part of this repository: the development is parametric in it
  (\<open>L\<close>, of type \<open>letter_table\<close>).
\<close>

type_synonym letter_table = "nat \<Rightarrow> bool"

definition IsLetter :: "letter_table \<Rightarrow> nat \<Rightarrow> bool" where
  "IsLetter L r =
     (if r < 128 then (65 \<le> r \<and> r \<le> 90) \<or> (97 \<le> r \<and> r \<le> 122)
      else if r = RuneError then False
      else L r)"

text \<open>The Latin-1 rows of the letter table, for closed instances of the theorems.\<close>

definition latin1Letters :: letter_table where
  "latin1Letters r =
     (r = 170 \<or> r = 181 \<or> r = 186 \<or> (192 \<le> r \<and> r \<le> 214) \<or> (216 \<le> r \<and> r \<le> 246)
        \<or> (248 \<le> r \<and> r \<le> 255))"

text \<open>\<open>strings.ContainsRune\<close>, for a rune that a \<open>range\<close> loop produced.\<close>

definition ContainsRune :: "string \<Rightarrow> nat \<Rightarrow> bool" where
  "ContainsRune s r = (r \<in> set (runes s))"

subsection \<open>The newline byte and line-oriented files\<close>

definition nl :: char where
  "nl = CHR 0x0A"

text \<open>\<open>unlines ls\<close>: every line followed by a newline, as a loop that writes each
  line and a newline leaves them in a file.\<close>

definition unlines :: "string list \<Rightarrow> string" where
  "unlines ls = concat (map (\<lambda>line. line @ [nl]) ls)"

text \<open>The lines of a file: the pieces that end in a newline, and the rest if it is not
  empty.\<close>

fun fileLines_from :: "string \<Rightarrow> string \<Rightarrow> string list" where
  "fileLines_from cur [] = (if cur = [] then [] else [cur])"
| "fileLines_from cur (c # cs) =
     (if c = nl then cur # fileLines_from [] cs else fileLines_from (cur @ [c]) cs)"

definition fileLines :: "string \<Rightarrow> string list" where
  "fileLines data = fileLines_from [] data"

subsection \<open>\<open>bufio.Scanner\<close> with the default split function \<open>ScanLines\<close>\<close>

datatype error = ErrTooLong

text \<open>
  The scanner's buffer grows to \<open>MaxScanTokenSize\<close> bytes and no further: a line is
  returned when it fits there with its newline (or, at the end of the input, leaves one
  byte free), which is when it is shorter than \<open>MaxScanTokenSize\<close>. On a longer one
  \<open>Scan\<close> returns false and \<open>Err\<close> is \<open>ErrTooLong\<close>. \<open>ScanLines\<close> drops one
  trailing carriage return of each line. \<open>scanLines\<close> gives the lines \<open>Scan\<close>
  returns, in order, and the value of \<open>Err\<close> after the loop.
\<close>

definition MaxScanTokenSize :: nat where
  "MaxScanTokenSize = 64 * 1024"

definition dropCR :: "string \<Rightarrow> string" where
  "dropCR data = (if data \<noteq> [] \<and> last data = CHR 0x0D then butlast data else data)"

function scanLines :: "string \<Rightarrow> string list \<times> error option" where
  "scanLines data =
     (if data = [] then ([], None)
      else let line = takeWhile (\<lambda>c. c \<noteq> nl) data in
        if MaxScanTokenSize \<le> length line then ([], Some ErrTooLong)
        else case scanLines (drop (length line + 1) data) of
               (tokens, err) \<Rightarrow> (dropCR line # tokens, err))"
  by pat_completeness auto
termination
  by (relation "measure length") auto

declare scanLines.simps [simp del]

lemma scanLines_Nil [simp]: "scanLines [] = ([], None)"
  by (simp add: scanLines.simps)

lemma scanLines_Cons:
  "scanLines (c # cs) =
     (let line = takeWhile (\<lambda>c. c \<noteq> nl) (c # cs) in
        if MaxScanTokenSize \<le> length line then ([], Some ErrTooLong)
        else case scanLines (drop (length line + 1) (c # cs)) of
               (tokens, err) \<Rightarrow> (dropCR line # tokens, err))"
  by (subst scanLines.simps) simp

text \<open>The lines seen by a loop \<open>for scanner.Scan() { ... scanner.Text() ... }\<close>.\<close>

definition scannedLines :: "string \<Rightarrow> string list" where
  "scannedLines data = fst (scanLines data)"

subsection \<open>Regular expressions (\<open>regexp.MatchString\<close>)\<close>

text \<open>
  The fragment of the RE2 syntax that the quality pattern uses: single runes, the dot
  (any rune but a newline), character classes, repetition of a class, concatenation,
  alternation, and the anchors \<open>^\<close> and \<open>$\<close> (beginning and end of the text).
\<close>

datatype cls = Chr nat | AnyNotNL | Ranges "(nat \<times> nat) list"

fun inCls :: "cls \<Rightarrow> nat \<Rightarrow> bool" where
  "inCls (Chr c) r = (r = c)"
| "inCls AnyNotNL r = (r \<noteq> 10)"
| "inCls (Ranges rs) r = list_ex (\<lambda>(lo, hi). lo \<le> r \<and> r \<le> hi) rs"

datatype regex =
    Empty
  | One cls
  | Star cls
  | Cat regex regex
  | Alt regex regex
  | Bol
  | Eol
  | Fail

text \<open>
  \<open>ends re (b, w)\<close>: all the ways \<open>re\<close> can match a prefix of the runes \<open>w\<close>, each given
  by what is left of \<open>w\<close>; \<open>b\<close> says whether \<open>w\<close> starts at the beginning of the text.
\<close>

fun starEnds :: "(nat \<Rightarrow> bool) \<Rightarrow> nat list \<Rightarrow> nat list list" where
  "starEnds P [] = []"
| "starEnds P (x # xs) = (if P x then xs # starEnds P xs else [])"

fun ends :: "regex \<Rightarrow> bool \<times> nat list \<Rightarrow> (bool \<times> nat list) list" where
  "ends Empty st = [st]"
| "ends (One c) (b, w) =
     (case w of [] \<Rightarrow> [] | x # xs \<Rightarrow> if inCls c x then [(False, xs)] else [])"
| "ends (Star c) (b, w) = (b, w) # map (Pair False) (starEnds (inCls c) w)"
| "ends (Cat r s) st = concat (map (ends s) (ends r st))"
| "ends (Alt r s) st = ends r st @ ends s st"
| "ends Bol (b, w) = (if b then [(b, w)] else [])"
| "ends Eol (b, w) = (if w = [] then [(b, w)] else [])"
| "ends Fail st = []"

text \<open>An unanchored search: a match may start at any rune boundary of the text.\<close>

fun searchFrom :: "regex \<Rightarrow> bool \<Rightarrow> nat list \<Rightarrow> bool" where
  "searchFrom re b [] = (ends re (b, []) \<noteq> [])"
| "searchFrom re b (x # xs) = (ends re (b, x # xs) \<noteq> [] \<or> searchFrom re False xs)"

definition MatchString :: "regex \<Rightarrow> string \<Rightarrow> bool" where
  "MatchString re s = searchFrom re True (runes s)"

definition lit :: "string \<Rightarrow> regex" where
  "lit s = foldr (\<lambda>c r. Cat (One (Chr (of_char c))) r) s Empty"

fun alts :: "regex list \<Rightarrow> regex" where
  "alts [] = Fail"
| "alts [r] = r"
| "alts (r # rs) = Alt r (alts rs)"

definition cats :: "regex list \<Rightarrow> regex" where
  "cats rs = foldr Cat rs Empty"

definition plus :: "cls \<Rightarrow> regex" where
  "plus c = Cat (One c) (Star c)"

definition opt :: "regex \<Rightarrow> regex" where
  "opt r = Alt r Empty"


subsection \<open>Package \<open>strings\<close>\<close>

text \<open>\<open>unicode.IsSpace\<close>: the code points with the property White_Space.\<close>

definition IsSpace :: "nat \<Rightarrow> bool" where
  "IsSpace r =
     ((9 \<le> r \<and> r \<le> 13) \<or> r = 32 \<or> r = 133 \<or> r = 160 \<or> r = 5760 \<or> (8192 \<le> r \<and> r \<le> 8202)
        \<or> r = 8232 \<or> r = 8233 \<or> r = 8239 \<or> r = 8287 \<or> r = 12288)"

text \<open>
  \<open>utf8.DecodeLastRuneInString\<close>: the last rune of a string and its width. It steps
  back over at most three bytes to a byte that can start a rune (\<open>utf8.RuneStart\<close>) and
  decodes forwards from there; the result counts only if it ends where the string ends.
\<close>

definition RuneStart :: "char \<Rightarrow> bool" where
  "RuneStart b = (\<not> (128 \<le> (of_char b :: nat) \<and> (of_char b :: nat) < 192))"

function backToStart :: "string \<Rightarrow> int \<Rightarrow> int \<Rightarrow> int" where
  "backToStart s lim start =
     (if lim \<le> start
      then (if RuneStart (s ! nat start) then start else backToStart s lim (start - 1))
      else start)"
  by pat_completeness auto
termination
  by (relation "measure (\<lambda>(s, lim, start). nat (start - lim + 1))") auto

declare backToStart.simps [simp del]

lemma backToStart_step:
  "lim \<le> start \<Longrightarrow>
   backToStart s lim start =
     (if RuneStart (s ! nat start) then start else backToStart s lim (start - 1))"
  by (subst backToStart.simps) simp

lemma backToStart_stop: "\<not> lim \<le> start \<Longrightarrow> backToStart s lim start = start"
  by (subst backToStart.simps) simp

definition DecodeLastRuneInString :: "string \<Rightarrow> nat \<times> nat" where
  "DecodeLastRuneInString s =
     (let n = int (length s) in
      if n = 0 then (RuneError, 0)
      else
        let r = (of_char (s ! nat (n - 1)) :: nat) in
        if r < 128 then (r, 1)
        else
          let lim = (if n - 4 < 0 then 0 else n - 4);
              start0 = backToStart s lim (n - 2);
              start = (if start0 < 0 then 0 else start0)
          in case DecodeRuneInString (drop (nat start) s) of
               (r, wid) \<Rightarrow> if start + int wid \<noteq> n then (RuneError, 1) else (r, wid))"

lemma backToStart_le: "backToStart s lim start \<le> start"
proof (induction s lim start rule: backToStart.induct)
  case (1 s lim start)
  then show ?case
    by (subst backToStart.simps) force
qed

lemma DecodeLastRuneInString_size:
  assumes "s \<noteq> []"
  shows "0 < snd (DecodeLastRuneInString s) \<and> snd (DecodeLastRuneInString s) \<le> length s"
proof -
  define n where "n = int (length s)"
  define lim where "lim = (if n - 4 < 0 then 0 else n - 4)"
  define start0 where "start0 = backToStart s lim (n - 2)"
  define start where "start = (if start0 < 0 then 0 else start0)"
  from assms have n: "0 < n"
    by (simp add: n_def)
  have "start0 \<le> n - 2"
    unfolding start0_def by (rule backToStart_le)
  with n have lt: "start < n" and ge: "0 \<le> start"
    by (auto simp: start_def)
  obtain r wid where d: "DecodeRuneInString (drop (nat start) s) = (r, wid)"
    by (cases "DecodeRuneInString (drop (nat start) s)")
  have "start + int wid = n \<Longrightarrow> 0 < wid \<and> wid \<le> length s"
    using lt ge unfolding n_def by linarith
  moreover have "DecodeLastRuneInString s =
      (if (of_char (s ! nat (n - 1)) :: nat) < 128 then (of_char (s ! nat (n - 1)), 1)
       else if start + int wid \<noteq> n then (RuneError, 1) else (r, wid))"
    using n d unfolding DecodeLastRuneInString_def Let_def n_def [symmetric] lim_def [symmetric]
      start0_def [symmetric] start_def [symmetric]
    by simp
  moreover from assms have "Suc 0 \<le> length s"
    by (cases s) auto
  ultimately show ?thesis
    by auto
qed

text \<open>\<open>lastIndexFunc\<close> and \<open>indexFunc\<close> of package \<open>strings\<close>; \<open>-1\<close> when no rune
  qualifies.\<close>

function lastIndexFunc_loop :: "string \<Rightarrow> (nat \<Rightarrow> bool) \<Rightarrow> bool \<Rightarrow> nat \<Rightarrow> int" where
  "lastIndexFunc_loop s f truth i =
     (if 0 < i \<and> i \<le> length s then
        case DecodeLastRuneInString (take i s) of
          (r, wid) \<Rightarrow> if f r = truth then int (i - wid) else lastIndexFunc_loop s f truth (i - wid)
      else -1)"
  by pat_completeness auto
termination
proof (relation "measure (\<lambda>(s, f, truth, i). i)")
  fix s :: string and f :: "nat \<Rightarrow> bool" and truth :: bool and i r wid :: nat
  assume i: "0 < i \<and> i \<le> length s" and d: "(r, wid) = DecodeLastRuneInString (take i s)"
  from i have "take i s \<noteq> []" by auto
  from DecodeLastRuneInString_size [OF this] d [symmetric] have "0 < wid" by simp
  with i show "((s, f, truth, i - wid), (s, f, truth, i)) \<in> measure (\<lambda>(s, f, truth, i). i)"
    by simp
qed simp

declare lastIndexFunc_loop.simps [simp del]

lemma lastIndexFunc_loop_step:
  "0 < i \<and> i \<le> length s \<Longrightarrow>
   lastIndexFunc_loop s f truth i =
     (case DecodeLastRuneInString (take i s) of
        (r, wid) \<Rightarrow> if f r = truth then int (i - wid) else lastIndexFunc_loop s f truth (i - wid))"
  by (subst lastIndexFunc_loop.simps) simp

lemma lastIndexFunc_loop_stop:
  "\<not> (0 < i \<and> i \<le> length s) \<Longrightarrow> lastIndexFunc_loop s f truth i = -1"
  by (subst lastIndexFunc_loop.simps) auto

definition lastIndexFunc :: "string \<Rightarrow> (nat \<Rightarrow> bool) \<Rightarrow> bool \<Rightarrow> int" where
  "lastIndexFunc s f truth = lastIndexFunc_loop s f truth (length s)"

fun indexFunc_loop :: "(nat \<times> string) list \<Rightarrow> (nat \<Rightarrow> bool) \<Rightarrow> bool \<Rightarrow> nat \<Rightarrow> int" where
  "indexFunc_loop [] f truth i = -1"
| "indexFunc_loop ((r, bs) # rest) f truth i =
     (if f r = truth then int i else indexFunc_loop rest f truth (i + length bs))"

definition indexFunc :: "string \<Rightarrow> (nat \<Rightarrow> bool) \<Rightarrow> bool \<Rightarrow> int" where
  "indexFunc s f truth = indexFunc_loop (decode s) f truth 0"

definition TrimLeftFunc :: "string \<Rightarrow> (nat \<Rightarrow> bool) \<Rightarrow> string" where
  "TrimLeftFunc s f = (let i = indexFunc s f False in if i = -1 then [] else drop (nat i) s)"

definition TrimRightFunc :: "string \<Rightarrow> (nat \<Rightarrow> bool) \<Rightarrow> string" where
  "TrimRightFunc s f =
     (let i = lastIndexFunc s f False in
      if 0 \<le> i \<and> 128 \<le> (of_char (s ! nat i) :: nat)
      then take (nat i + snd (DecodeRuneInString (drop (nat i) s))) s
      else take (nat (i + 1)) s)"

text \<open>\<open>strings.TrimSpace\<close> is \<open>TrimFunc(s, unicode.IsSpace)\<close> with a fast path for
  ASCII that gives the same result.\<close>

definition TrimSpace :: "string \<Rightarrow> string" where
  "TrimSpace s = TrimRightFunc (TrimLeftFunc s IsSpace) IsSpace"

text \<open>\<open>strings.TrimLeft(s, " ")\<close>: the cutset is the one byte 32.\<close>

definition TrimLeft_space :: "string \<Rightarrow> string" where
  "TrimLeft_space s = dropWhile (\<lambda>c. c = CHR '' '') s"

definition TrimSuffix :: "string \<Rightarrow> string \<Rightarrow> string" where
  "TrimSuffix s suf = (if suffix suf s then take (length s - length suf) s else s)"

text \<open>\<open>strings.ReplaceAll(s, old, "")\<close> for a pattern \<open>old\<close> of one byte.\<close>

definition removeByte :: "char \<Rightarrow> string \<Rightarrow> string" where
  "removeByte old s = filter (\<lambda>c. c \<noteq> old) s"

fun Join :: "string list \<Rightarrow> string \<Rightarrow> string" where
  "Join [] sep = []"
| "Join [a] sep = a"
| "Join (a # rest) sep = a @ sep @ Join rest sep"

text \<open>\<open>strings.Split(s, "\n")\<close>: the pieces between newlines; one more piece than
  newlines.\<close>

fun Split_from :: "string \<Rightarrow> string \<Rightarrow> string list" where
  "Split_from cur [] = [cur]"
| "Split_from cur (c # cs) =
     (if c = nl then cur # Split_from [] cs else Split_from (cur @ [c]) cs)"

definition Split_nl :: "string \<Rightarrow> string list" where
  "Split_nl s = Split_from [] s"

text \<open>\<open>strings.Fields\<close>: the maximal pieces without white space.\<close>

fun Fields_loop :: "(nat \<times> string) list \<Rightarrow> string \<Rightarrow> string list" where
  "Fields_loop [] cur = (if cur = [] then [] else [cur])"
| "Fields_loop ((r, bs) # rest) cur =
     (if IsSpace r then (if cur = [] then [] else [cur]) @ Fields_loop rest []
      else Fields_loop rest (cur @ bs))"

definition Fields :: "string \<Rightarrow> string list" where
  "Fields s = Fields_loop (decode s) []"

text \<open>\<open>strings.ToLower\<close> on a string of ASCII bytes (the only use in the pipeline is on the
  result of \<open>RemoveControlChars\<close>): \<open>A-Z\<close> become \<open>a-z\<close>, byte by byte.\<close>

definition lowerByte :: "char \<Rightarrow> char" where
  "lowerByte c =
     (case map_of (zip ''ABCDEFGHIJKLMNOPQRSTUVWXYZ'' ''abcdefghijklmnopqrstuvwxyz'') c of
        Some l \<Rightarrow> l
      | None \<Rightarrow> c)"

definition ToLower_ascii :: "string \<Rightarrow> string" where
  "ToLower_ascii s = map lowerByte s"

text \<open>\<open>fmt.Sprintf("%d", n)\<close> for \<open>n \<ge> 0\<close>.\<close>

definition digits :: string where
  "digits = ''0123456789''"

function itoa :: "nat \<Rightarrow> string" where
  "itoa n = (if n < 10 then [digits ! n] else itoa (n div 10) @ [digits ! (n mod 10)])"
  by pat_completeness auto
termination
  by (relation "measure id") auto

declare itoa.simps [simp del]

lemma itoa_digit: "n < 10 \<Longrightarrow> itoa n = [digits ! n]"
  by (subst itoa.simps) simp

lemma itoa_step: "\<not> n < 10 \<Longrightarrow> itoa n = itoa (n div 10) @ [digits ! (n mod 10)]"
  by (subst itoa.simps) simp


section \<open>Quality filter (package utils)\<close>

text \<open>\<open>IsAllDigitsOrSpecialChars\<close>: no rune of the string is a letter.\<close>

definition IsAllDigitsOrSpecialChars :: "letter_table \<Rightarrow> string \<Rightarrow> bool" where
  "IsAllDigitsOrSpecialChars L s = (\<not> list_ex (IsLetter L) (runes s))"

text \<open>\<open>ContainsOnlyASCII\<close>: no rune is above \<open>unicode.MaxASCII\<close>.\<close>

definition ContainsOnlyASCII :: "string \<Rightarrow> bool" where
  "ContainsOnlyASCII s = list_all (\<lambda>char. \<not> 127 < char) (runes s)"

definition vowels :: string where
  "vowels = ''aeiouAEIOU''"

text \<open>
  \<open>isWordLike\<close>: the loop over the runes of the window, with the state
  \<open>(hasVowel, digitOrSpecialCount)\<close>.
\<close>

fun isWordLike_loop :: "letter_table \<Rightarrow> nat list \<Rightarrow> bool \<times> nat \<Rightarrow> bool \<times> nat" where
  "isWordLike_loop L [] st = st"
| "isWordLike_loop L (char # rest) (hasVowel, digitOrSpecialCount) =
     (if ContainsRune vowels char then isWordLike_loop L rest (True, digitOrSpecialCount)
      else if \<not> IsLetter L char then isWordLike_loop L rest (hasVowel, digitOrSpecialCount + 1)
      else isWordLike_loop L rest (hasVowel, digitOrSpecialCount))"

definition isWordLike :: "letter_table \<Rightarrow> string \<Rightarrow> bool" where
  "isWordLike L s =
     (case isWordLike_loop L (runes s) (False, 0) of
        (hasVowel, digitOrSpecialCount) \<Rightarrow> hasVowel \<and> digitOrSpecialCount \<le> 1)"

text \<open>
  \<open>LikelyContainsWords\<close>: \<open>for i := 0; i < len(s)-4; i++\<close> over the byte windows
  \<open>s[i : i+5]\<close>, counting the word-like ones. The loop only runs when \<open>len(s) \<ge> 5\<close>, so
  \<open>i < len(s) - 4\<close> is \<open>i + 4 < len(s)\<close>.
\<close>

function LikelyContainsWords_loop :: "letter_table \<Rightarrow> string \<Rightarrow> nat \<Rightarrow> nat \<Rightarrow> nat" where
  "LikelyContainsWords_loop L s i vowelCount =
     (if i + 4 < length s
      then LikelyContainsWords_loop L s (i + 1)
             (if isWordLike L (take 5 (drop i s)) then vowelCount + 1 else vowelCount)
      else vowelCount)"
  by pat_completeness auto
termination
  by (relation "measure (\<lambda>(L, s, i, v). length s - i)") auto

declare LikelyContainsWords_loop.simps [simp del]

lemma LikelyContainsWords_loop_step:
  "i + 4 < length s \<Longrightarrow>
   LikelyContainsWords_loop L s i vowelCount =
     LikelyContainsWords_loop L s (i + 1)
       (if isWordLike L (take 5 (drop i s)) then vowelCount + 1 else vowelCount)"
  by (subst LikelyContainsWords_loop.simps) simp

lemma LikelyContainsWords_loop_stop:
  "\<not> i + 4 < length s \<Longrightarrow> LikelyContainsWords_loop L s i vowelCount = vowelCount"
  by (subst LikelyContainsWords_loop.simps) simp

definition LikelyContainsWords :: "letter_table \<Rightarrow> string \<Rightarrow> bool" where
  "LikelyContainsWords L s =
     (if length s < 5 then False else 0 < LikelyContainsWords_loop L s 0 0)"

text \<open>\<open>filterLines\<close> (package generate): the loop over the scanner's lines, with the
  \<open>strings.Builder\<close> as accumulator; each \<open>continue\<close> skips the line.\<close>

fun filterLines_loop :: "letter_table \<Rightarrow> string list \<Rightarrow> string \<Rightarrow> string" where
  "filterLines_loop L [] result = result"
| "filterLines_loop L (line # rest) result =
     (if IsAllDigitsOrSpecialChars L line then filterLines_loop L rest result
      else if ContainsOnlyASCII line = False then filterLines_loop L rest result
      else if LikelyContainsWords L line = False then filterLines_loop L rest result
      else filterLines_loop L rest (result @ line @ [nl]))"

definition filterLines :: "letter_table \<Rightarrow> string \<Rightarrow> string" where
  "filterLines L data = filterLines_loop L (scannedLines data) []"

text \<open>
  \<open>IsQualityCandidateCheck\<close>. The pattern is a raw string literal (between back quotes),
  so every doubled backslash of the source reaches the regular expression as two
  backslashes, which match one backslash of the text (rune 92); the slash, the at sign or
  the dot that follows is then an item of the pattern of its own, and that dot matches any
  rune but a newline. The bounded repetitions \<open>{2,6}\<close> and \<open>{0,5}\<close> are written out as
  nested options.
\<close>

definition qualityRegex :: regex where
  "qualityRegex =
     (let bs = One (Chr 92);
          slash = One (Chr 47);
          at = One (Chr 64);
          dot = One AnyNotNL;
          letter = One (Ranges [(65, 90), (97, 122)]);
          digit = Ranges [(48, 57)];
          local = Ranges [(65, 90), (97, 122), (48, 57), (46, 46), (95, 95), (37, 37),
                          (43, 43), (45, 45)];
          host = Ranges [(65, 90), (97, 122), (48, 57), (46, 46), (45, 45)]
      in alts
        [alts [lit ''xiaonei'', lit ''zomato'', lit ''fbobh'', lit ''fccdbbcdaa'', lit ''yahoo'',
               lit ''linkedin'', lit ''gmail'', lit ''yandex'', lit ''hotmail''],
         cats [lit ''http:'', bs, slash, bs, slash],
         cats [lit ''https:'', bs, slash, bs, slash],
         cats [bs, at, Star AnyNotNL, bs, dot, lit ''net''],
         lit ''<tr>'',
         lit ''<div>'',
         lit ''<a href'',
         lit ''<p>'',
         lit ''<img src'',
         cats [plus local, at, plus host, bs, dot, letter, letter,
               opt (cats [letter, opt (cats [letter, opt (cats [letter, opt letter])])])],
         cats [Bol, plus digit, Eol],
         cats [Bol,
               opt (cats [dot, opt (cats [dot, opt (cats [dot, opt (cats [dot, opt dot])])])]),
               Eol]])"

definition IsQualityCandidateCheck :: "string \<Rightarrow> bool" where
  "IsQualityCandidateCheck s = (\<not> MatchString qualityRegex s)"


section \<open>N-grams and length bounds (package models)\<close>

text \<open>
  \<open>GenerateNGrams\<close>: for every window size \<open>i\<close> from \<open>wordRangeStart\<close> to
  \<open>wordRangeEnd\<close> and every \<open>j\<close> with \<open>j \<le> len(words) - i\<close>, the words
  \<open>words[j : j+i]\<close> joined by one space, trimmed, with the bytes \<open>.\<close>, \<open>,\<close> and \<open>;\<close>
  removed. The two loops are \<open>GenerateNGrams_outer\<close> and \<open>GenerateNGrams_inner\<close>; the
  window sizes are natural numbers (the pipeline passes 1 and 5).
\<close>

definition nGramAt :: "string list \<Rightarrow> nat \<Rightarrow> nat \<Rightarrow> string" where
  "nGramAt words j i =
     (let nGram = Join (take i (drop j words)) '' '';
          nGram = TrimSpace nGram;
          nGram = TrimLeft_space nGram;
          nGram = removeByte CHR ''.'' nGram;
          nGram = removeByte CHR '','' nGram;
          nGram = removeByte CHR '';'' nGram
      in nGram)"

function GenerateNGrams_inner :: "string list \<Rightarrow> nat \<Rightarrow> nat \<Rightarrow> string list \<Rightarrow> string list" where
  "GenerateNGrams_inner words i j nGrams =
     (if j + i \<le> length words
      then GenerateNGrams_inner words i (j + 1) (nGrams @ [nGramAt words j i])
      else nGrams)"
  by pat_completeness auto
termination
  by (relation "measure (\<lambda>(words, i, j, nGrams). length words + 1 - (j + i))") auto

declare GenerateNGrams_inner.simps [simp del]

lemma GenerateNGrams_inner_step:
  "j + i \<le> length words \<Longrightarrow>
   GenerateNGrams_inner words i j nGrams =
     GenerateNGrams_inner words i (j + 1) (nGrams @ [nGramAt words j i])"
  by (subst GenerateNGrams_inner.simps) simp

lemma GenerateNGrams_inner_stop:
  "\<not> j + i \<le> length words \<Longrightarrow> GenerateNGrams_inner words i j nGrams = nGrams"
  by (subst GenerateNGrams_inner.simps) simp

function GenerateNGrams_outer :: "string list \<Rightarrow> nat \<Rightarrow> nat \<Rightarrow> string list \<Rightarrow> string list" where
  "GenerateNGrams_outer words i wordRangeEnd nGrams =
     (if i \<le> wordRangeEnd
      then GenerateNGrams_outer words (i + 1) wordRangeEnd (GenerateNGrams_inner words i 0 nGrams)
      else nGrams)"
  by pat_completeness auto
termination
  by (relation "measure (\<lambda>(words, i, wordRangeEnd, nGrams). wordRangeEnd + 1 - i)") auto

declare GenerateNGrams_outer.simps [simp del]

lemma GenerateNGrams_outer_step:
  "i \<le> wordRangeEnd \<Longrightarrow>
   GenerateNGrams_outer words i wordRangeEnd nGrams =
     GenerateNGrams_outer words (i + 1) wordRangeEnd (GenerateNGrams_inner words i 0 nGrams)"
  by (subst GenerateNGrams_outer.simps) simp

lemma GenerateNGrams_outer_stop:
  "\<not> i \<le> wordRangeEnd \<Longrightarrow> GenerateNGrams_outer words i wordRangeEnd nGrams = nGrams"
  by (subst GenerateNGrams_outer.simps) simp

definition GenerateNGrams :: "string \<Rightarrow> nat \<Rightarrow> nat \<Rightarrow> string list" where
  "GenerateNGrams text wordRangeStart wordRangeEnd =
     GenerateNGrams_outer (Fields text) wordRangeStart wordRangeEnd []"

definition GenerateNGramSliceBytes :: "string \<Rightarrow> nat \<Rightarrow> nat \<Rightarrow> string" where
  "GenerateNGramSliceBytes input wordRangeStart wordRangeEnd =
     Join (concat (map (\<lambda>line. GenerateNGrams line wordRangeStart wordRangeEnd)
                       (Split_nl input))) [nl]"

text \<open>\<open>EnforceLengthRange\<close>: the loop that appends the lines of fitting length to
  \<open>filtered\<close>.\<close>

fun EnforceLengthRange_loop :: "string list \<Rightarrow> nat \<Rightarrow> nat \<Rightarrow> string list \<Rightarrow> string list" where
  "EnforceLengthRange_loop [] minLength maxLength filtered = filtered"
| "EnforceLengthRange_loop (line # rest) minLength maxLength filtered =
     (if minLength \<le> length line \<and> length line \<le> maxLength
      then EnforceLengthRange_loop rest minLength maxLength (filtered @ [line])
      else EnforceLengthRange_loop rest minLength maxLength filtered)"

definition EnforceLengthRange :: "string \<Rightarrow> nat \<Rightarrow> nat \<Rightarrow> string" where
  "EnforceLengthRange input minLength maxLength =
     Join (EnforceLengthRange_loop (Split_nl input) minLength maxLength []) [nl]"

section \<open>The transform stage (package generate)\<close>

text \<open>\<open>RemoveControlChars\<close> keeps the runes from 32 to 126; each of them is one byte, and
  \<open>WriteRune\<close> writes that byte.\<close>

definition RemoveControlChars :: "string \<Rightarrow> string" where
  "RemoveControlChars s = concat (map snd (filter (\<lambda>(r, bs). 32 \<le> r \<and> r \<le> 126) (decode s)))"

text \<open>
  \<open>PrepareStringForTransformations\<close>. \<open>cases.Title(language.Und, cases.NoLower)\<close> belongs to
  the library \<open>golang.org/x/text\<close>, not to this repository: the title caser is the
  parameter \<open>T\<close>.
\<close>

type_synonym title_caser = "string \<Rightarrow> string"

definition prepareLine :: "title_caser \<Rightarrow> string \<Rightarrow> string" where
  "prepareLine T line =
     (let clean = removeByte CHR 0x00 line;
          clean = removeByte CHR 0x0A clean;
          clean = removeByte CHR 0x09 clean;
          clean = removeByte CHR 0x0D clean;
          clean = removeByte CHR 0x0C clean;
          clean = removeByte CHR 0x0B clean;
          clean = RemoveControlChars clean;
          clean = ToLower_ascii clean
      in if CHR '' '' \<in> set clean then removeByte CHR '' '' (T clean)
         else removeByte CHR '' '' clean)"

definition PrepareStringForTransformations :: "title_caser \<Rightarrow> string \<Rightarrow> string list" where
  "PrepareStringForTransformations T data = map (prepareLine T) (scannedLines data)"

definition isDigit :: "nat \<Rightarrow> bool" where
  "isDigit r = (48 \<le> r \<and> r \<le> 57)"

definition removeTrailingDigits :: "string \<Rightarrow> string" where
  "removeTrailingDigits data =
     unlines (map (\<lambda>line. TrimRightFunc line isDigit) (scannedLines data))"

definition removeLeadingDigits :: "string \<Rightarrow> string" where
  "removeLeadingDigits data =
     unlines (map (\<lambda>line. TrimLeftFunc line isDigit) (scannedLines data))"

text \<open>The body of the read loop of \<open>CreateWizardWordlist\<close>: what is written to the target
  file for one buffer of source bytes. \<open>beforeLengthBound\<close> is the value of
  \<open>processedChunk\<close> that \<open>EnforceLengthRange\<close> receives.\<close>

definition beforeLengthBound :: "letter_table \<Rightarrow> title_caser \<Rightarrow> string \<Rightarrow> string" where
  "beforeLengthBound L T buffer =
     (let processedChunk = GenerateNGramSliceBytes buffer 1 5;
          preparedLines = PrepareStringForTransformations T processedChunk;
          processedChunk = Join preparedLines [nl];
          processedChunk = filterLines L processedChunk;
          processedChunk = removeTrailingDigits processedChunk;
          processedChunk = removeLeadingDigits processedChunk
      in processedChunk)"

definition transformChunk :: "letter_table \<Rightarrow> title_caser \<Rightarrow> string \<Rightarrow> string" where
  "transformChunk L T buffer =
     (let processedChunk = beforeLengthBound L T buffer;
          processedChunk = EnforceLengthRange processedChunk 4 32;
          nGramChunk = filterLines L processedChunk
      in nGramChunk)"

text \<open>
  The read loop: \<open>sourceFile.Read(buffer)\<close> with a buffer of \<open>256*1024\<close> bytes gives the
  next bytes of the file, as many as the buffer holds or as are left; the loop ends on a
  read of no bytes. \<open>written\<close> collects what \<open>targetFile.Write\<close> has written.
\<close>

definition bufferSize :: nat where
  "bufferSize = 256 * 1024"

function readLoop :: "letter_table \<Rightarrow> title_caser \<Rightarrow> string \<Rightarrow> string \<Rightarrow> string" where
  "readLoop L T source written =
     (let n = min bufferSize (length source) in
      if n = 0 then written
      else readLoop L T (drop n source) (written @ transformChunk L T (take n source)))"
  by pat_completeness auto
termination
  by (relation "measure (\<lambda>(L, T, source, written). length source)") (auto simp: bufferSize_def)

declare readLoop.simps [simp del]

lemma readLoop_Nil: "readLoop L T [] written = written"
  by (subst readLoop.simps) simp

lemma readLoop_Cons:
  "readLoop L T (c # cs) written =
     readLoop L T (drop (min bufferSize (length (c # cs))) (c # cs))
       (written @ transformChunk L T (take (min bufferSize (length (c # cs))) (c # cs)))"
  by (subst readLoop.simps) (simp add: Let_def bufferSize_def)


section \<open>External sort and aggregation (package utils)\<close>

subsection \<open>The scatter-sort stage\<close>

text \<open>
  The scratch directory holds the chunk files; a file is given by its chunk counter
  (\<open>n\<close> stands for the name \<open>chunk_n.txt\<close>) and its bytes. \<open>os.Create\<close> replaces a
  file of the same name. Opening, creating and writing files are taken to succeed: the
  errors of the model are those of the scanner.
\<close>

type_synonym tempdir = "(nat \<times> string) list"

definition createFile :: "tempdir \<Rightarrow> nat \<Rightarrow> string \<Rightarrow> tempdir" where
  "createFile dir n content = filter (\<lambda>(k, c). k \<noteq> n) dir @ [(n, content)]"

text \<open>\<open>sortAndWriteChunk\<close>: \<open>sort.Strings\<close> orders strings byte by byte, a proper prefix
  first; this is the order of \<^typ>\<open>string\<close>.\<close>

definition sortAndWriteChunk :: "string list \<Rightarrow> tempdir \<Rightarrow> nat \<Rightarrow> tempdir" where
  "sortAndWriteChunk lines tempDir chunkCounter =
     createFile tempDir chunkCounter (unlines (sort lines))"

text \<open>The loop of \<open>processFileChunksToTempFiles\<close> over the scanner's lines, with the state
  \<open>(lines, chunkCounter)\<close> and the directory.\<close>

fun chunkLoop ::
  "nat \<Rightarrow> string list \<Rightarrow> string list \<times> nat \<times> tempdir \<Rightarrow> string list \<times> nat \<times> tempdir" where
  "chunkLoop limit [] st = st"
| "chunkLoop limit (line # rest) (lines, chunkCounter, tempDir) =
     (if limit \<le> length (lines @ [line])
      then chunkLoop limit rest
             ([], chunkCounter + 1, sortAndWriteChunk (lines @ [line]) tempDir chunkCounter)
      else chunkLoop limit rest (lines @ [line], chunkCounter, tempDir))"

text \<open>
  \<open>processFileChunksToTempFiles\<close>, for a batch size \<open>limit\<close>, on the bytes of the file to
  sort and an empty scratch directory. The last, shorter batch is written before
  \<open>scanner.Err()\<close> is looked at; the result is the directory and that error.
\<close>

definition processFileChunksToTempFiles_with :: "nat \<Rightarrow> string \<Rightarrow> tempdir \<times> error option" where
  "processFileChunksToTempFiles_with limit file =
     (case scanLines file of
        (scanned, err) \<Rightarrow>
          (case chunkLoop limit scanned ([], 0, []) of
             (lines, chunkCounter, tempDir) \<Rightarrow>
               (if 0 < length lines then sortAndWriteChunk lines tempDir chunkCounter
                else tempDir, err)))"

definition chunkLineCount :: nat where
  "chunkLineCount = 25000000"

definition processFileChunksToTempFiles :: "string \<Rightarrow> tempdir \<times> error option" where
  "processFileChunksToTempFiles file = processFileChunksToTempFiles_with chunkLineCount file"

subsection \<open>The aggregate stage\<close>

text \<open>\<open>os.ReadDir\<close> lists a directory sorted by file name.\<close>

definition chunkName :: "nat \<Rightarrow> string" where
  "chunkName n = ''chunk_'' @ itoa n @ ''.txt''"

definition ReadDir :: "tempdir \<Rightarrow> (nat \<times> string) list" where
  "ReadDir dir = sort_key (\<lambda>(n, content). chunkName n) dir"

text \<open>The table \<open>entries\<close> (a \<open>map[string]int\<close>) as an association list; \<open>increment\<close> is
  \<open>entries[line]++\<close> and \<open>len(entries)\<close> is the length of the list.\<close>

type_synonym entries = "(string \<times> nat) list"

fun increment :: "entries \<Rightarrow> string \<Rightarrow> entries" where
  "increment [] line = [(line, 1)]"
| "increment ((str, cnt) # rest) line =
     (if str = line then (str, cnt + 1) # rest else (str, cnt) # increment rest line)"

text \<open>
  \<open>flushEntriesToFile\<close> collects the pairs of the table with \<open>range\<close> and sorts them with
  \<open>sort.Slice\<close> by decreasing count. Go leaves the order of \<open>range\<close> over a map open, and
  \<open>sort.Slice\<close> is not stable: the order of the keys that have the same count is not
  fixed by the program. The model takes it from a parameter, a ranking of the keys: the
  pairs are listed by increasing rank and then sorted by decreasing count, keeping the
  order of equal counts. Every list that the Go code can produce comes from some
  ranking (lemma \<open>freqPairs_any_order\<close>).
\<close>

type_synonym ranking = "string \<Rightarrow> nat"

definition freqPairs :: "ranking \<Rightarrow> entries \<Rightarrow> (string \<times> nat) list" where
  "freqPairs rank entries =
     sort_key (\<lambda>(str, cnt). - int cnt) (sort_key (\<lambda>(str, cnt). rank str) entries)"

text \<open>The line written for a pair: \<open>strings.TrimSpace(strings.TrimSuffix(pair.str,
  fmt.Sprintf(" %d", pair.count)))\<close>.\<close>

definition flushLine :: "string \<times> nat \<Rightarrow> string" where
  "flushLine pair = TrimSpace (TrimSuffix (fst pair) ('' '' @ itoa (snd pair)))"

text \<open>The writer is given by the lines written to it so far, in order; each is followed by
  a newline in the file.\<close>

definition flushEntriesToFile :: "ranking \<Rightarrow> entries \<Rightarrow> string list \<Rightarrow> string list" where
  "flushEntriesToFile rank entries writer = writer @ map flushLine (freqPairs rank entries)"

text \<open>
  The loops of \<open>mergeSortedChunks\<close>: the inner one over the lines of a chunk file, the
  outer one over the files. The state is \<open>(entries, writer, numberOfWrittenEntries)\<close>;
  \<open>ranks n\<close> is the ranking of flush number \<open>n\<close>.
\<close>

fun countLoop ::
  "(nat \<Rightarrow> ranking) \<Rightarrow> nat \<Rightarrow> string list \<Rightarrow> entries \<times> string list \<times> nat
     \<Rightarrow> entries \<times> string list \<times> nat" where
  "countLoop ranks threshold [] st = st"
| "countLoop ranks threshold (line # rest) (entries, writer, numberOfWrittenEntries) =
     (if threshold < length (increment entries line)
      then countLoop ranks threshold rest
             ([], flushEntriesToFile (ranks numberOfWrittenEntries) (increment entries line) writer,
              numberOfWrittenEntries + 1)
      else countLoop ranks threshold rest (increment entries line, writer, numberOfWrittenEntries))"

fun scannersLoop ::
  "(nat \<Rightarrow> ranking) \<Rightarrow> nat \<Rightarrow> string list \<Rightarrow> entries \<times> string list \<times> nat
     \<Rightarrow> error + entries \<times> string list \<times> nat" where
  "scannersLoop ranks threshold [] st = Inr st"
| "scannersLoop ranks threshold (chunkFile # rest) st =
     (case scanLines chunkFile of
        (lines, err) \<Rightarrow>
          (case err of
             Some e \<Rightarrow> Inl e
           | None \<Rightarrow> scannersLoop ranks threshold rest (countLoop ranks threshold lines st)))"

text \<open>\<open>mergeSortedChunks\<close>, for a flush threshold: the lines written to the output file
  (created empty by \<open>os.Create\<close>), or the scanner's error.\<close>

definition mergeSortedChunks_with ::
  "(nat \<Rightarrow> ranking) \<Rightarrow> nat \<Rightarrow> tempdir \<Rightarrow> error + string list" where
  "mergeSortedChunks_with ranks threshold tempDir =
     (case scannersLoop ranks threshold (map snd (ReadDir tempDir)) ([], [], 0) of
        Inl e \<Rightarrow> Inl e
      | Inr (entries, writer, numberOfWrittenEntries) \<Rightarrow>
          Inr (if 0 < length entries
               then flushEntriesToFile (ranks numberOfWrittenEntries) entries writer
               else writer))"

definition flushThreshold :: nat where
  "flushThreshold = 50000000"

definition mergeSortedChunks :: "(nat \<Rightarrow> ranking) \<Rightarrow> tempdir \<Rightarrow> error + string list" where
  "mergeSortedChunks ranks tempDir = mergeSortedChunks_with ranks flushThreshold tempDir"

text \<open>\<open>SortByAproxFrequency\<close> on the bytes of the target file: its new bytes, or the
  error.\<close>

definition SortByAproxFrequency :: "(nat \<Rightarrow> ranking) \<Rightarrow> string \<Rightarrow> error + string" where
  "SortByAproxFrequency ranks target =
     (case processFileChunksToTempFiles target of
        (tempDir, Some e) \<Rightarrow> Inl e
      | (tempDir, None) \<Rightarrow>
          (case mergeSortedChunks ranks tempDir of
             Inl e \<Rightarrow> Inl e
           | Inr lines \<Rightarrow> Inr (unlines lines)))"

section \<open>The generation run (package generate)\<close>

text \<open>
  \<open>CreateWizardWordlist\<close> opens the target file with \<open>O_CREATE|O_WRONLY\<close>: the file keeps
  its bytes, and the writes of the read loop replace them from the start of the file
  on. \<open>SortByAproxFrequency\<close> then sorts what the file holds. The arguments are the bytes
  of the source file and those of the target file before the run (none if it did not
  exist).
\<close>

definition overwrite :: "string \<Rightarrow> string \<Rightarrow> string" where
  "overwrite old written = written @ drop (length written) old"

definition CreateWizardWordlist ::
  "letter_table \<Rightarrow> title_caser \<Rightarrow> (nat \<Rightarrow> ranking) \<Rightarrow> string \<Rightarrow> string \<Rightarrow> error + string" where
  "CreateWizardWordlist L T ranks source target =
     SortByAproxFrequency ranks (overwrite target (readLoop L T source []))"


section \<open>Notions of the specification\<close>

text \<open>
  The table that counting the lines \<open>w\<close> into an empty table gives, and the windows of
  the glossary: a window is the span of lines consumed between two flushes. It ends with
  the line that pushes the number of distinct lines above the threshold; the last window
  is what is left at the end of the input.
\<close>

definition counts :: "string list \<Rightarrow> entries" where
  "counts w = foldl increment [] w"

fun windows_from :: "nat \<Rightarrow> string list \<Rightarrow> string list \<Rightarrow> string list list" where
  "windows_from threshold cur [] = (if cur = [] then [] else [cur])"
| "windows_from threshold cur (line # rest) =
     (if threshold < card (set (cur @ [line]))
      then (cur @ [line]) # windows_from threshold [] rest
      else windows_from threshold (cur @ [line]) rest)"

definition windows :: "nat \<Rightarrow> string list \<Rightarrow> string list list" where
  "windows threshold lines = windows_from threshold [] lines"

text \<open>The lines of the chunk files of a directory, in the order in which
  \<open>mergeSortedChunks\<close> consumes them.\<close>

definition consumedLines :: "tempdir \<Rightarrow> string list" where
  "consumedLines tempDir = concat (map (\<lambda>(n, content). scannedLines content) (ReadDir tempDir))"


text \<open>The successive reads of a file through a buffer of \<open>n\<close> bytes: each takes the next
  \<open>n\<close> bytes, the last one what is left.\<close>

function reads :: "nat \<Rightarrow> string \<Rightarrow> string list" where
  "reads n source =
     (if n = 0 \<or> source = [] then [] else take n source # reads n (drop n source))"
  by pat_completeness auto
termination
  by (relation "measure (\<lambda>(n, source). length source)") auto

declare reads.simps [simp del]

text \<open>
  Modelled from the spec: the title caser \<open>cases.Title(language.Und, cases.NoLower)\<close> of
  \<open>golang.org/x/text\<close> is not among the sources. Section 4.2 of the specification:
  title-case each word (first letter upper, rest unchanged). A word starts at the
  beginning of the string and after a space. It stands for the parameter \<open>T\<close> in closed
  instances of the theorems.
\<close>

definition upperByte :: "char \<Rightarrow> char" where
  "upperByte c =
     (case map_of (zip ''abcdefghijklmnopqrstuvwxyz'' ''ABCDEFGHIJKLMNOPQRSTUVWXYZ'') c of
        Some u \<Rightarrow> u
      | None \<Rightarrow> c)"

fun titleWords_from :: "bool \<Rightarrow> string \<Rightarrow> string" where
  "titleWords_from atStart [] = []"
| "titleWords_from atStart (c # cs) =
     (if c = CHR '' '' then c # titleWords_from True cs
      else (if atStart then upperByte c else c) # titleWords_from False cs)"

definition titleWords :: title_caser where
  "titleWords s = titleWords_from True s"


chapter \<open>Properties\<close>

section \<open>The word-likeness heuristic\<close>

lemma ContainsRune_vowels:
  "ContainsRune vowels r \<longleftrightarrow> r \<in> of_char ` set ''aeiouAEIOU''"
  by (auto simp: ContainsRune_def vowels_def runes_def)

lemma isWordLike_loop_eq:
  "isWordLike_loop L rs (h, n) =
     (h \<or> (\<exists>r\<in>set rs. ContainsRune vowels r),
      n + length (filter (\<lambda>r. \<not> ContainsRune vowels r \<and> \<not> IsLetter L r) rs))"
  by (induction rs arbitrary: h n) auto

lemma isWordLike_eq:
  "isWordLike L w \<longleftrightarrow>
     (\<exists>r\<in>set (runes w). ContainsRune vowels r) \<and>
     length (filter (\<lambda>r. \<not> ContainsRune vowels r \<and> \<not> IsLetter L r) (runes w)) \<le> 1"
  by (simp add: isWordLike_def isWordLike_loop_eq)

lemma LikelyContainsWords_loop_eq:
  "LikelyContainsWords_loop L s i v =
     v + length (filter (\<lambda>j. isWordLike L (take 5 (drop j s))) [i..<length s - 4])"
proof (induction L s i v rule: LikelyContainsWords_loop.induct)
  case (1 L s i v)
  show ?case
  proof (cases "i + 4 < length s")
    case True
    then have "[i..<length s - 4] = i # [i + 1..<length s - 4]"
      by (simp add: upt_conv_Cons)
    with True "1.IH" show ?thesis
      by (subst LikelyContainsWords_loop.simps) simp
  next
    case False
    then show ?thesis
      by (subst LikelyContainsWords_loop.simps) simp
  qed
qed

lemma LikelyContainsWords_windows:
  "LikelyContainsWords L s \<longleftrightarrow>
     5 \<le> length s \<and> (\<exists>i. i + 5 \<le> length s \<and> isWordLike L (take 5 (drop i s)))"
proof -
  have "(\<exists>j\<in>set [0..<length s - 4]. isWordLike L (take 5 (drop j s)))
        \<longleftrightarrow> (\<exists>i. i + 5 \<le> length s \<and> isWordLike L (take 5 (drop i s)))"
  proof
    assume "\<exists>j\<in>set [0..<length s - 4]. isWordLike L (take 5 (drop j s))"
    then obtain j where "j < length s - 4" and "isWordLike L (take 5 (drop j s))"
      by auto
    moreover from this have "j + 5 \<le> length s" by arith
    ultimately show "\<exists>i. i + 5 \<le> length s \<and> isWordLike L (take 5 (drop i s))"
      by blast
  next
    assume "\<exists>i. i + 5 \<le> length s \<and> isWordLike L (take 5 (drop i s))"
    then obtain i where "i + 5 \<le> length s" and w: "isWordLike L (take 5 (drop i s))"
      by blast
    then have "i \<in> set [0..<length s - 4]" by auto
    with w show "\<exists>j\<in>set [0..<length s - 4]. isWordLike L (take 5 (drop j s))"
      by blast
  qed
  then have "0 < length (filter (\<lambda>j. isWordLike L (take 5 (drop j s))) [0..<length s - 4])
        \<longleftrightarrow> (\<exists>i. i + 5 \<le> length s \<and> isWordLike L (take 5 (drop i s)))"
    by (simp add: filter_empty_conv)
  then show ?thesis
    by (auto simp: LikelyContainsWords_def LikelyContainsWords_loop_eq)
qed

text \<open>
  Claim C5. \<open>LikelyContainsWords\<close> (the spec's \<open>looks_like_a_word\<close>) is false on every
  string shorter than 5. On a string of length at least 5 it is true exactly when some
  window \<open>s[i : i+5]\<close> has a vowel (one of \<open>aeiouAEIOU\<close>) and at most one character that is
  neither a vowel nor a letter. It is true on \<open>ab1cd\<close> and false on \<open>12345\<close> and \<open>abcd\<close>.
  Lengths and windows count bytes, as \<open>len\<close> and slicing do in Go; the characters of a
  window are the runes that \<open>range\<close> decodes from it.
\<close>

theorem LikelyContainsWords_window_rule:
  "(length s < 5 \<longrightarrow> \<not> LikelyContainsWords L s) \<and>
   (5 \<le> length s \<longrightarrow>
      LikelyContainsWords L s =
        (\<exists>i. i + 5 \<le> length s \<and>
           (\<exists>r\<in>set (runes (take 5 (drop i s))). r \<in> of_char ` set ''aeiouAEIOU'') \<and>
           length (filter (\<lambda>r. r \<notin> of_char ` set ''aeiouAEIOU'' \<and> \<not> IsLetter L r)
                     (runes (take 5 (drop i s)))) \<le> 1)) \<and>
   LikelyContainsWords L ''ab1cd'' \<and>
   \<not> LikelyContainsWords L ''12345'' \<and>
   \<not> LikelyContainsWords L ''abcd''"
proof -
  have short: "length s < 5 \<longrightarrow> \<not> LikelyContainsWords L s"
    by (simp add: LikelyContainsWords_def)
  have long: "5 \<le> length s \<longrightarrow>
      LikelyContainsWords L s =
        (\<exists>i. i + 5 \<le> length s \<and>
           (\<exists>r\<in>set (runes (take 5 (drop i s))). r \<in> of_char ` set ''aeiouAEIOU'') \<and>
           length (filter (\<lambda>r. r \<notin> of_char ` set ''aeiouAEIOU'' \<and> \<not> IsLetter L r)
                     (runes (take 5 (drop i s)))) \<le> 1)"
    unfolding LikelyContainsWords_windows isWordLike_eq ContainsRune_vowels by simp
  have e1: "LikelyContainsWords L ''ab1cd''"
    by code_simp
  have e2: "\<not> LikelyContainsWords L ''12345''"
    by code_simp
  have e3: "\<not> LikelyContainsWords L ''abcd''"
    by code_simp
  from short long e1 e2 e3 show ?thesis
    by blast
qed

theorem LikelyContainsWords_window_rule_witness:
  "length ''abc1'' < 5 \<and> \<not> LikelyContainsWords latin1Letters ''abc1'' \<and>
   5 \<le> length ''hunter2'' \<and>
   LikelyContainsWords latin1Letters ''hunter2'' =
     (\<exists>i. i + 5 \<le> length ''hunter2'' \<and>
        (\<exists>r\<in>set (runes (take 5 (drop i ''hunter2''))). r \<in> of_char ` set ''aeiouAEIOU'') \<and>
        length (filter (\<lambda>r. r \<notin> of_char ` set ''aeiouAEIOU'' \<and> \<not> IsLetter latin1Letters r)
                  (runes (take 5 (drop i ''hunter2'')))) \<le> 1)"
  using LikelyContainsWords_window_rule [of "''abc1''" latin1Letters]
    LikelyContainsWords_window_rule [of "''hunter2''" latin1Letters]
  by simp

section \<open>Lines of files and of the scanner\<close>

lemma fileLines_from_line:
  "nl \<notin> set l \<Longrightarrow> fileLines_from cur (l @ nl # rest) = (cur @ l) # fileLines_from [] rest"
  by (induction l arbitrary: cur) auto

lemma fileLines_unlines:
  "\<forall>l\<in>set ls. nl \<notin> set l \<Longrightarrow> fileLines (unlines ls) = ls"
  by (induction ls) (simp_all add: fileLines_def unlines_def fileLines_from_line)

lemma dropCR_subset: "set (dropCR l) \<subseteq> set l"
  by (auto simp: dropCR_def dest: in_set_butlastD)

lemma scanLines_no_nl: "\<forall>l\<in>set (fst (scanLines data)). nl \<notin> set l"
proof (induction data rule: scanLines.induct)
  case (1 data)
  show ?case
  proof (cases "data = [] \<or> MaxScanTokenSize \<le> length (takeWhile (\<lambda>c. c \<noteq> nl) data)")
    case True
    then show ?thesis
      by (subst scanLines.simps) (auto simp: Let_def)
  next
    case False
    then have IH: "\<forall>l\<in>set (fst (scanLines (drop (length (takeWhile (\<lambda>c. c \<noteq> nl) data) + 1) data))).
                     nl \<notin> set l"
      using "1.IH" [OF _ refl] by simp
    have "nl \<notin> set (takeWhile (\<lambda>c. c \<noteq> nl) data)"
      by (auto dest: set_takeWhileD)
    then have "nl \<notin> set (dropCR (takeWhile (\<lambda>c. c \<noteq> nl) data))"
      using dropCR_subset by blast
    with False IH show ?thesis
      by (subst scanLines.simps) (auto simp: Let_def split: prod.splits)
  qed
qed

lemma scannedLines_no_nl: "\<forall>l\<in>set (scannedLines data). nl \<notin> set l"
  using scanLines_no_nl by (simp add: scannedLines_def)

section \<open>The filter step of the generation pipeline\<close>

lemmas scan_eval =
  scannedLines_def scanLines_Cons MaxScanTokenSize_def dropCR_def nl_def Let_def unlines_def

lemmas regex_eval =
  IsQualityCandidateCheck_def MatchString_def qualityRegex_def Let_def runes_def
  lit_def cats_def plus_def opt_def

lemma filterLines_loop_eq:
  "filterLines_loop L ls acc =
     acc @ unlines (filter (\<lambda>line. \<not> IsAllDigitsOrSpecialChars L line \<and> ContainsOnlyASCII line
                                  \<and> LikelyContainsWords L line) ls)"
  by (induction ls arbitrary: acc) (simp_all add: unlines_def)

lemma filterLines_eq:
  "filterLines L data =
     unlines (filter (\<lambda>line. \<not> IsAllDigitsOrSpecialChars L line \<and> ContainsOnlyASCII line
                              \<and> LikelyContainsWords L line) (scannedLines data))"
  by (simp add: filterLines_def filterLines_loop_eq)

text \<open>
  Claim C1, as stated: every line the filter step examines is kept exactly when it has a
  letter, is ASCII only, looks like a word and passes the denylist. The line \<open>hello\<close>
  is kept by \<open>filterLines\<close> although the denylist rejects it (it has at most 5
  characters): \<open>filterLines\<close> never calls \<open>IsQualityCandidateCheck\<close>.
\<close>

theorem filterLines_four_predicates_counterexample:
  "filterLines latin1Letters ''hello'' = ''hello'' @ [nl] \<and>
   \<not> (\<not> IsAllDigitsOrSpecialChars latin1Letters ''hello'' \<and> ContainsOnlyASCII ''hello'' \<and>
      LikelyContainsWords latin1Letters ''hello'' \<and> IsQualityCandidateCheck ''hello'')"
proof -
  have three: "\<not> IsAllDigitsOrSpecialChars latin1Letters ''hello'' \<and> ContainsOnlyASCII ''hello''
      \<and> LikelyContainsWords latin1Letters ''hello''"
    by code_simp
  have "scannedLines ''hello'' = [''hello'']"
    by (simp add: scan_eval)
  with three have "filterLines latin1Letters ''hello'' = ''hello'' @ [nl]"
    by (simp add: filterLines_eq unlines_def)
  moreover have "\<not> IsQualityCandidateCheck ''hello''"
    by (simp add: regex_eval)
  ultimately show ?thesis
    by blast
qed

text \<open>
  Claim C1, amended: the lines \<open>filterLines\<close> writes are, in order, the lines it reads
  that have a letter, are ASCII only and look like a word, each unchanged and followed by
  a newline; the denylist plays no part.
\<close>

theorem filterLines_keeps_iff:
  "fileLines (filterLines L data) =
     filter (\<lambda>line. \<not> IsAllDigitsOrSpecialChars L line \<and> ContainsOnlyASCII line
                      \<and> LikelyContainsWords L line) (scannedLines data) \<and>
   filterLines L data = unlines (fileLines (filterLines L data))"
proof -
  let ?kept = "filter (\<lambda>line. \<not> IsAllDigitsOrSpecialChars L line \<and> ContainsOnlyASCII line
                      \<and> LikelyContainsWords L line) (scannedLines data)"
  have "\<forall>l\<in>set ?kept. nl \<notin> set l"
    using scannedLines_no_nl [of data] by simp
  then have "fileLines (unlines ?kept) = ?kept"
    by (rule fileLines_unlines)
  then show ?thesis
    by (simp add: filterLines_eq)
qed

theorem filterLines_keeps_iff_witness:
  "fileLines (filterLines latin1Letters (unlines [''password1'', ''12345678'', ''hello'', ''xyz'']))
     = [''password1'', ''hello'']"
proof -
  have keep:
    "\<not> IsAllDigitsOrSpecialChars latin1Letters ''password1'' \<and> ContainsOnlyASCII ''password1''
       \<and> LikelyContainsWords latin1Letters ''password1''"
    "IsAllDigitsOrSpecialChars latin1Letters ''12345678''"
    "\<not> IsAllDigitsOrSpecialChars latin1Letters ''hello'' \<and> ContainsOnlyASCII ''hello''
       \<and> LikelyContainsWords latin1Letters ''hello''"
    "\<not> LikelyContainsWords latin1Letters ''xyz''"
    by code_simp+
  have scan: "scannedLines (unlines [''password1'', ''12345678'', ''hello'', ''xyz''])
      = [''password1'', ''12345678'', ''hello'', ''xyz'']"
    by (simp add: scan_eval)
  show ?thesis
    using filterLines_keeps_iff
      [of latin1Letters "unlines [''password1'', ''12345678'', ''hello'', ''xyz'']"]
    by (simp add: scan keep)
qed

section \<open>The denylist\<close>

text \<open>
  Claim C8 says that \<open>IsQualityCandidateCheck\<close> is false on every string that starts with
  \<open>http://\<close>. The pattern asks for a backslash before each slash, so such a string
  passes; so does an ordinary e-mail address, for the same reason.
\<close>

theorem IsQualityCandidateCheck_http_passes:
  "IsQualityCandidateCheck ''http://example.com/login'' \<and>
   IsQualityCandidateCheck ''https://example.com/login'' \<and>
   IsQualityCandidateCheck ''someone@example.com''"
  by (simp add: regex_eval)

section \<open>The scatter-sort stage\<close>

lemma createFile_fresh:
  "\<forall>(k, c)\<in>set dir. k < n \<Longrightarrow> createFile dir n content = dir @ [(n, content)]"
proof -
  assume "\<forall>(k, c)\<in>set dir. k < n"
  then have "filter (\<lambda>(k, c). k \<noteq> n) dir = dir"
    by (induction dir) auto
  then show ?thesis
    by (simp add: createFile_def)
qed

lemma fileLines_sorted_chunk:
  "\<forall>l\<in>set ls. nl \<notin> set l \<Longrightarrow> fileLines (unlines (sort ls)) = sort ls"
  by (rule fileLines_unlines) simp

text \<open>The invariant of the batching loop: the lines of the files written so far, with
  the lines of the batch in memory, are the lines read so far; every file is sorted; the
  files' counters are below \<open>chunkCounter\<close>.\<close>

lemma chunkLoop_invariant:
  assumes "\<forall>l\<in>set ls. nl \<notin> set l"
    and "\<forall>l\<in>set lines. nl \<notin> set l"
    and "\<forall>(k, c)\<in>set dir. k < cnt"
    and "\<forall>(k, c)\<in>set dir. sorted (fileLines c)"
    and "distinct (map fst dir)"
    and "chunkLoop limit ls (lines, cnt, dir) = (lines', cnt', dir')"
  shows "mset (concat (map (\<lambda>(k, c). fileLines c) dir')) + mset lines' =
           mset (concat (map (\<lambda>(k, c). fileLines c) dir)) + mset lines + mset ls
         \<and> (\<forall>l\<in>set lines'. nl \<notin> set l)
         \<and> (\<forall>(k, c)\<in>set dir'. k < cnt')
         \<and> (\<forall>(k, c)\<in>set dir'. sorted (fileLines c))
         \<and> distinct (map fst dir')"
  using assms
proof (induction ls arbitrary: lines cnt dir)
  case Nil
  then show ?case by simp
next
  case (Cons line rest)
  show ?case
  proof (cases "limit \<le> length (lines @ [line])")
    case True
    let ?batch = "lines @ [line]"
    let ?dir = "dir @ [(cnt, unlines (sort ?batch))]"
    have fresh: "sortAndWriteChunk ?batch dir cnt = ?dir"
      using Cons.prems(3) by (simp add: sortAndWriteChunk_def createFile_fresh)
    have batch_nl: "\<forall>l\<in>set ?batch. nl \<notin> set l"
      using Cons.prems(1,2) by auto
    then have fl: "fileLines (unlines (sort ?batch)) = sort ?batch"
      by (rule fileLines_sorted_chunk)
    have step: "chunkLoop limit rest ([], cnt + 1, ?dir) = (lines', cnt', dir')"
      using Cons.prems(6) True fresh by simp
    have p1: "\<forall>l\<in>set rest. nl \<notin> set l"
      using Cons.prems(1) by simp
    have p3: "\<forall>(k, c)\<in>set ?dir. k < cnt + 1"
      using Cons.prems(3) by auto
    have p4: "\<forall>(k, c)\<in>set ?dir. sorted (fileLines c)"
      using Cons.prems(4) fl by auto
    have p5: "distinct (map fst ?dir)"
      using Cons.prems(3,5) by auto
    from Cons.IH [OF p1 _ p3 p4 p5 step]
    have IH: "mset (concat (map (\<lambda>(k, c). fileLines c) dir')) + mset lines' =
           mset (concat (map (\<lambda>(k, c). fileLines c) ?dir)) + mset [] + mset rest
         \<and> (\<forall>l\<in>set lines'. nl \<notin> set l)
         \<and> (\<forall>(k, c)\<in>set dir'. k < cnt')
         \<and> (\<forall>(k, c)\<in>set dir'. sorted (fileLines c))
         \<and> distinct (map fst dir')"
      by simp
    have "mset (concat (map (\<lambda>(k, c). fileLines c) ?dir)) =
          mset (concat (map (\<lambda>(k, c). fileLines c) dir)) + mset lines + mset [line]"
      by (simp add: fl)
    with IH show ?thesis
      by simp
  next
    case False
    have step: "chunkLoop limit rest (lines @ [line], cnt, dir) = (lines', cnt', dir')"
      using Cons.prems(6) False by simp
    have p1: "\<forall>l\<in>set rest. nl \<notin> set l"
      using Cons.prems(1) by simp
    have p2: "\<forall>l\<in>set (lines @ [line]). nl \<notin> set l"
      using Cons.prems(1,2) by auto
    from Cons.IH [OF p1 p2 Cons.prems(3) Cons.prems(4) Cons.prems(5) step]
    show ?thesis
      by simp
  qed
qed

text \<open>
  Claim C6. For every file and every batch size: the lines of the chunk files that
  \<open>processFileChunksToTempFiles\<close> leaves in the scratch directory are, as a multiset,
  the lines the scanner read from the input; every chunk file is sorted in the
  lexicographic order of byte strings; and no two chunk files have the same name. The
  statement is for every batch size, the one of the code (\<open>chunkLineCount\<close>) included.
\<close>

theorem scatter_sort_preserves_lines:
  "mset (concat (map (\<lambda>(n, content). fileLines content)
                    (fst (processFileChunksToTempFiles_with limit input)))) =
     mset (scannedLines input) \<and>
   (\<forall>(n, content)\<in>set (fst (processFileChunksToTempFiles_with limit input)).
      sorted (fileLines content)) \<and>
   distinct (map fst (fst (processFileChunksToTempFiles_with limit input))) \<and>
   processFileChunksToTempFiles input = processFileChunksToTempFiles_with chunkLineCount input"
proof -
  obtain scanned err where scan: "scanLines input = (scanned, err)"
    by (cases "scanLines input")
  obtain lines cnt dir where loop: "chunkLoop limit scanned ([], 0, []) = (lines, cnt, dir)"
    by (cases "chunkLoop limit scanned ([], 0, [])")
  have nl: "\<forall>l\<in>set scanned. nl \<notin> set l"
    using scanLines_no_nl [of "input"] scan by simp
  from chunkLoop_invariant [OF nl _ _ _ _ loop]
  have inv: "mset (concat (map (\<lambda>(k, c). fileLines c) dir)) + mset lines = mset scanned"
    and lines_nl: "\<forall>l\<in>set lines. nl \<notin> set l"
    and below: "\<forall>(k, c)\<in>set dir. k < cnt"
    and sorted_dir: "\<forall>(k, c)\<in>set dir. sorted (fileLines c)"
    and dist: "distinct (map fst dir)"
    by simp_all
  let ?final = "if 0 < length lines then sortAndWriteChunk lines dir cnt else dir"
  have result: "fst (processFileChunksToTempFiles_with limit input) = ?final"
    by (simp add: processFileChunksToTempFiles_with_def scan loop)
  have fresh: "sortAndWriteChunk lines dir cnt = dir @ [(cnt, unlines (sort lines))]"
    using below by (simp add: sortAndWriteChunk_def createFile_fresh)
  have fl: "fileLines (unlines (sort lines)) = sort lines"
    using lines_nl by (rule fileLines_sorted_chunk)
  have a: "mset (concat (map (\<lambda>(n, content). fileLines content) ?final)) = mset scanned"
    using inv by (auto simp: fresh fl)
  have b: "\<forall>(n, content)\<in>set ?final. sorted (fileLines content)"
    using sorted_dir by (auto simp: fresh fl)
  have c: "distinct (map fst ?final)"
    using dist below by (auto simp: fresh)
  from a b c show ?thesis
    unfolding result by (simp add: scannedLines_def scan processFileChunksToTempFiles_def)
qed

theorem scatter_sort_preserves_lines_witness:
  "fst (processFileChunksToTempFiles_with 2 (unlines [''b'', ''a'', ''c'', ''a'', ''d''])) =
     [(0, unlines [''a'', ''b'']), (1, unlines [''a'', ''c'']), (2, unlines [''d''])] \<and>
   mset (concat (map (\<lambda>(n, content). fileLines content)
     (fst (processFileChunksToTempFiles_with 2 (unlines [''b'', ''a'', ''c'', ''a'', ''d''])))))
     = mset [''b'', ''a'', ''c'', ''a'', ''d''] \<and>
   sorted (fileLines (unlines [''a'', ''b''])) \<and> sorted (fileLines (unlines [''a'', ''c''])) \<and>
   sorted (fileLines (unlines [''d'']))"
proof -
  have run: "fst (processFileChunksToTempFiles_with 2 (unlines [''b'', ''a'', ''c'', ''a'', ''d''])) =
     [(0, unlines [''a'', ''b'']), (1, unlines [''a'', ''c'']), (2, unlines [''d''])]"
    by code_simp
  have scan: "scannedLines (unlines [''b'', ''a'', ''c'', ''a'', ''d'']) = [''b'', ''a'', ''c'', ''a'', ''d'']"
    by code_simp
  show ?thesis
    using scatter_sort_preserves_lines [of 2 "unlines [''b'', ''a'', ''c'', ''a'', ''d'']"]
    unfolding run scan by simp
qed


section \<open>The aggregate stage\<close>

subsection \<open>The table\<close>

lemma increment_keys:
  "map fst (increment es l) = (if l \<in> set (map fst es) then map fst es else map fst es @ [l])"
  by (induction es) force+

lemma increment_lookup:
  "map_of (increment es l) =
     (map_of es)(l \<mapsto> (case map_of es l of None \<Rightarrow> 1 | Some c \<Rightarrow> c + 1))"
  by (induction es) (auto simp: fun_eq_iff)

lemma counts_snoc: "counts (w @ [l]) = increment (counts w) l"
  by (simp add: counts_def)

lemma counts_keys: "distinct (map fst (counts w)) \<and> set (map fst (counts w)) = set w"
proof (induction w rule: rev_induct)
  case Nil
  show ?case by (simp add: counts_def)
next
  case (snoc l w)
  then show ?case
    by (auto simp: counts_snoc increment_keys)
qed

lemma length_counts: "length (counts w) = card (set w)"
proof -
  have "card (set (map fst (counts w))) = length (map fst (counts w))"
    using counts_keys [of w] by (intro distinct_card) blast
  moreover have "set (map fst (counts w)) = set w"
    using counts_keys [of w] by blast
  ultimately show ?thesis
    by simp
qed

lemma counts_Nil [simp]: "counts [] = []"
  by (simp add: counts_def)

lemma counts_eq_Nil [simp]: "counts w = [] \<longleftrightarrow> w = []"
  using counts_keys [of w] by (cases "counts w") auto

lemma freqPairs_Nil [simp]: "freqPairs rank [] = []"
  by (simp add: freqPairs_def)

lemma counts_lookup: "map_of (counts w) k = (if k \<in> set w then Some (count_list w k) else None)"
proof (induction w rule: rev_induct)
  case Nil
  show ?case by (simp add: counts_def)
next
  case (snoc l w)
  then show ?case
    by (auto simp: counts_snoc increment_lookup)
qed

lemma counts_entry: "(k, c) \<in> set (counts w) \<Longrightarrow> k \<in> set w \<and> c = count_list w k"
proof -
  assume "(k, c) \<in> set (counts w)"
  then have "map_of (counts w) k = Some c"
    using counts_keys [of w] by simp
  then show ?thesis
    by (simp add: counts_lookup split: if_splits)
qed

subsection \<open>One flush\<close>

lemma freqPairs_mset: "mset (freqPairs rank es) = mset es"
  by (simp add: freqPairs_def)

lemma freqPairs_descending: "sorted_wrt (\<lambda>p q. snd q \<le> snd p) (freqPairs rank es)"
proof -
  have "sorted (map (\<lambda>(str, cnt). - int cnt) (freqPairs rank es))"
    unfolding freqPairs_def by (rule sorted_sort_key)
  then have "sorted_wrt (\<lambda>p q. (case p of (str, cnt) \<Rightarrow> - int cnt)
                               \<le> (case q of (str, cnt) \<Rightarrow> - int cnt)) (freqPairs rank es)"
    by (simp add: sorted_map)
  then show ?thesis
    by (rule sorted_wrt_mono_rel [rotated]) auto
qed

lemma TrimSuffix_no_space:
  "CHR '' '' \<notin> set k \<Longrightarrow> TrimSuffix k ('' '' @ ds) = k"
  by (auto simp: TrimSuffix_def suffix_def)

lemma decode_ascii_head:
  "(of_char c :: nat) < 128 \<Longrightarrow> decode (c # cs) = (of_char c, [c]) # decode cs"
  by (simp add: Let_def)

lemma TrimLeftFunc_keep:
  assumes "k \<noteq> [] \<longrightarrow> (of_char (hd k) :: nat) < 128 \<and> \<not> f (of_char (hd k))"
  shows "TrimLeftFunc k f = k"
proof (cases k)
  case Nil
  then show ?thesis
    by (simp add: TrimLeftFunc_def indexFunc_def)
next
  case (Cons c cs)
  with assms have "(of_char c :: nat) < 128" and "\<not> f (of_char c)"
    by simp_all
  then show ?thesis
    unfolding Cons TrimLeftFunc_def indexFunc_def by (simp add: Let_def)
qed

lemma DecodeLastRuneInString_ascii:
  "k \<noteq> [] \<Longrightarrow> (of_char (last k) :: nat) < 128 \<Longrightarrow>
   DecodeLastRuneInString k = (of_char (last k), 1)"
  by (simp add: DecodeLastRuneInString_def Let_def last_conv_nth nat_diff_distrib')

lemma TrimRightFunc_keep:
  assumes "k \<noteq> [] \<longrightarrow> (of_char (last k) :: nat) < 128 \<and> \<not> f (of_char (last k))"
  shows "TrimRightFunc k f = k"
proof (cases "k = []")
  case True
  then show ?thesis
    by (simp add: TrimRightFunc_def lastIndexFunc_def lastIndexFunc_loop_stop)
next
  case False
  with assms have a: "(of_char (last k) :: nat) < 128" and nf: "\<not> f (of_char (last k))"
    by simp_all
  have "lastIndexFunc k f False = int (length k - 1)"
    using False nf
    by (simp add: lastIndexFunc_def lastIndexFunc_loop_step DecodeLastRuneInString_ascii [OF False a])
  moreover have "k ! (length k - 1) = last k"
    using False by (simp add: last_conv_nth)
  ultimately show ?thesis
    using False a by (simp add: TrimRightFunc_def Let_def)
qed

text \<open>A key of printable ASCII characters other than the space is written as it is.\<close>

lemma flushLine_unchanged:
  assumes "\<forall>c\<in>set k. 32 < (of_char c :: nat) \<and> (of_char c :: nat) < 127"
  shows "flushLine (k, n) = k"
proof -
  have "CHR '' '' \<notin> set k"
    using assms by auto
  then have suffix: "TrimSuffix k (CHR '' '' # itoa n) = k"
    using TrimSuffix_no_space [of k "itoa n"] by simp
  have nospace: "\<And>c. c \<in> set k \<Longrightarrow> (of_char c :: nat) < 128 \<and> \<not> IsSpace (of_char c)"
    using assms by (auto simp: IsSpace_def)
  have left: "TrimLeftFunc k IsSpace = k"
    by (rule TrimLeftFunc_keep) (auto dest: nospace [OF hd_in_set])
  have right: "TrimRightFunc k IsSpace = k"
    by (rule TrimRightFunc_keep) (auto dest: nospace [OF last_in_set])
  show ?thesis
    by (simp add: flushLine_def suffix TrimSpace_def left right)
qed

subsection \<open>The run as a sequence of flushes\<close>

text \<open>What the flushes of the windows \<open>ws\<close> write, the first of them being flush number
  \<open>n\<close>.\<close>

lemma countLoop_append:
  "countLoop ranks threshold (a @ b) (es, wr, n) =
     countLoop ranks threshold b (countLoop ranks threshold a (es, wr, n))"
  by (induction a arbitrary: es wr n) auto

lemma scannersLoop_ok:
  "\<forall>f\<in>set files. snd (scanLines f) = None \<Longrightarrow>
   scannersLoop ranks threshold files (es, wr, n) =
     Inr (countLoop ranks threshold (concat (map scannedLines files)) (es, wr, n))"
proof (induction files arbitrary: es wr n)
  case Nil
  show ?case by simp
next
  case (Cons f files)
  obtain ls err where scan: "scanLines f = (ls, err)"
    by (cases "scanLines f")
  with Cons.prems have err: "err = None"
    by simp
  obtain es' wr' n' where step: "countLoop ranks threshold ls (es, wr, n) = (es', wr', n')"
    by (cases "countLoop ranks threshold ls (es, wr, n)")
  from Cons.prems have "\<forall>f\<in>set files. snd (scanLines f) = None"
    by simp
  from Cons.IH [OF this, of es' wr' n'] show ?case
    by (simp add: scan err step scannedLines_def countLoop_append)
qed

lemma windows_from_concat: "concat (windows_from threshold cur ls) = cur @ ls"
  by (induction ls arbitrary: cur) auto

lemma countLoop_windows:
  "countLoop ranks threshold ls (counts cur, wr, n) = (es', wr', n') \<Longrightarrow>
   (if 0 < length es' then flushEntriesToFile (ranks n') es' wr' else wr') =
     wr @ concat (map (\<lambda>(i, w). map flushLine (freqPairs (ranks i) (counts w)))
                      (zip [n ..< n + length (windows_from threshold cur ls)]
                           (windows_from threshold cur ls)))"
proof (induction ls arbitrary: cur wr n)
  case Nil
  then show ?case
    by (auto simp: flushEntriesToFile_def)
next
  case (Cons l ls)
  show ?case
  proof (cases "threshold < card (set (cur @ [l]))")
    case True
    let ?wr = "flushEntriesToFile (ranks n) (counts (cur @ [l])) wr"
    let ?ws = "windows_from threshold [] ls"
    have "countLoop ranks threshold ls (counts [], ?wr, n + 1) = (es', wr', n')"
      using Cons.prems True by (simp add: counts_snoc [symmetric] length_counts)
    from Cons.IH [OF this]
    have "(if 0 < length es' then flushEntriesToFile (ranks n') es' wr' else wr') =
        ?wr @ concat (map (\<lambda>(i, w). map flushLine (freqPairs (ranks i) (counts w)))
                          (zip [n + 1 ..< n + 1 + length ?ws] ?ws))" .
    moreover have "[n ..< n + length ((cur @ [l]) # ?ws)] = n # [n + 1 ..< n + 1 + length ?ws]"
      by (subst upt_rec) simp
    ultimately show ?thesis
      using True by (simp add: flushEntriesToFile_def)
  next
    case False
    have "countLoop ranks threshold ls (counts (cur @ [l]), wr, n) = (es', wr', n')"
      using Cons.prems False by (simp add: counts_snoc [symmetric] length_counts)
    from Cons.IH [OF this] show ?thesis
      using False by simp
  qed
qed

lemma mergeSortedChunks_with_eq:
  assumes "\<forall>(k, content)\<in>set tempDir. snd (scanLines content) = None"
  shows "mergeSortedChunks_with ranks threshold tempDir =
     Inr (concat (map (\<lambda>(i, w). map flushLine (freqPairs (ranks i) (counts w)))
                      (zip [0 ..< length (windows threshold (consumedLines tempDir))]
                           (windows threshold (consumedLines tempDir)))))"
proof -
  let ?files = "map snd (ReadDir tempDir)"
  let ?ls = "concat (map scannedLines ?files)"
  have "set (ReadDir tempDir) = set tempDir"
    by (simp add: ReadDir_def)
  with assms have ok: "\<forall>f\<in>set ?files. snd (scanLines f) = None"
    by auto
  have consumed: "consumedLines tempDir = ?ls"
    by (simp add: consumedLines_def comp_def case_prod_unfold)
  obtain es' wr' n' where loop: "countLoop ranks threshold ?ls ([], [], 0) = (es', wr', n')"
    by (cases "countLoop ranks threshold ?ls ([], [], 0)")
  then have "countLoop ranks threshold ?ls (counts [], [], 0) = (es', wr', n')"
    by simp
  from countLoop_windows [OF this]
  have "(if 0 < length es' then flushEntriesToFile (ranks n') es' wr' else wr') =
     concat (map (\<lambda>(i, w). map flushLine (freqPairs (ranks i) (counts w)))
                 (zip [0 ..< length (windows threshold ?ls)] (windows threshold ?ls)))"
    by (simp add: windows_def)
  then show ?thesis
    unfolding mergeSortedChunks_with_def consumed
    by (simp add: scannersLoop_ok [OF ok] loop del: map_map)
qed

lemma flushes_length:
  "length (concat (map (\<lambda>(i, w). map flushLine (freqPairs (ranks i) (counts w))) (zip is ws))) =
     sum_list (map (\<lambda>(i, w). card (set w)) (zip is ws))"
proof -
  have "\<And>r w. length (freqPairs r (counts w)) = card (set w)"
    using length_counts freqPairs_mset by (metis size_mset)
  then show ?thesis
    by (induction "zip is ws" arbitrary: "is" ws) (auto simp: length_concat comp_def case_prod_unfold)
qed


text \<open>The ranking covers every order Go may choose: any arrangement of the table's
  pairs by decreasing count is \<open>freqPairs\<close> for some ranking.\<close>

lemma freqPairs_any_order:
  assumes d: "distinct (map fst es)"
    and m: "mset ps = mset es"
    and s: "sorted_wrt (\<lambda>p q. snd q \<le> snd p) ps"
  shows "\<exists>r. freqPairs r es = ps"
proof -
  define rank where "rank k = length (takeWhile (\<lambda>p. fst p \<noteq> k) ps)" for k
  let ?f = "\<lambda>(str, cnt). rank str"
  have "mset (map fst ps) = mset (map fst es)"
    using m by simp
  then have dps: "distinct (map fst ps)"
    using d mset_eq_imp_distinct_iff by blast
  have rank_nth: "rank (fst (ps ! i)) = i" if "i < length ps" for i
  proof -
    have "takeWhile (\<lambda>p. fst p \<noteq> fst (ps ! i)) ps = take i ps"
    proof (rule takeWhile_eq_take_P_nth)
      fix j assume j: "j < i" "j < length ps"
      have "(map fst ps ! j = map fst ps ! i) = (j = i)"
        using dps j that by (intro nth_eq_iff_index_eq) simp_all
      with j that show "fst (ps ! j) \<noteq> fst (ps ! i)"
        by simp
    qed simp
    with that show ?thesis
      by (simp add: rank_def)
  qed
  have f_nth: "?f (ps ! i) = i" if "i < length ps" for i
    using rank_nth [OF that] by (simp add: case_prod_unfold)
  have sorted_f: "sorted (map ?f ps)"
    unfolding sorted_map sorted_wrt_iff_nth_less using f_nth by simp
  have inj: "?f p = ?f q \<longleftrightarrow> p = q" if "p \<in> set ps" "q \<in> set ps" for p q
  proof -
    from that obtain i j where "i < length ps" "ps ! i = p" "j < length ps" "ps ! j = q"
      by (auto simp: in_set_conv_nth)
    then show ?thesis
      using f_nth by metis
  qed
  have single: "filter (\<lambda>x. x = p) xs = [p]" if "distinct xs" "p \<in> set xs" for p and xs :: "(string \<times> nat) list"
    using that by (induction xs) (auto simp: filter_empty_conv)
  have set_eq: "set es = set ps"
    using m by (metis mset_eq_setD)
  have dist_ps: "distinct ps" and dist_es: "distinct es"
    using dps d by (auto simp: distinct_map)
  have "sort_key ?f es = ps"
  proof (rule properties_for_sort_key [OF m _ sorted_f])
    fix p assume p: "p \<in> set ps"
    have "filter (\<lambda>x. ?f p = ?f x) ps = filter (\<lambda>x. x = p) ps"
      by (rule filter_cong) (use p inj in auto)
    moreover have "filter (\<lambda>x. ?f p = ?f x) es = filter (\<lambda>x. x = p) es"
      by (rule filter_cong) (use p inj set_eq in auto)
    ultimately show "filter (\<lambda>x. ?f p = ?f x) ps = filter (\<lambda>x. ?f p = ?f x) es"
      using single [OF dist_ps p] single [OF dist_es] p set_eq by simp
  qed
  moreover have "sorted (map (\<lambda>(str, cnt). - int cnt) ps)"
    unfolding sorted_map using s by (rule sorted_wrt_mono_rel [rotated]) auto
  ultimately have "freqPairs rank es = ps"
    by (simp add: freqPairs_def sort_key_id_if_sorted)
  then show "\<exists>r. freqPairs r es = ps"
    by (rule exI [of _ rank])
qed

subsection \<open>Lines written and lines consumed\<close>

lemma map_zip_snd:
  "length xs = length ys \<Longrightarrow> map (\<lambda>(i, w). f w) (zip xs ys) = map f ys"
  by (induction xs ys rule: list_induct2) auto

lemma distinct_lines_sum:
  "sum_list (map (\<lambda>w. card (set w)) ws) \<le> length (concat ws) \<and>
   (sum_list (map (\<lambda>w. card (set w)) ws) = length (concat ws) \<longleftrightarrow> (\<forall>w\<in>set ws. distinct w))"
proof (induction ws)
  case Nil
  show ?case by simp
next
  case (Cons w ws)
  have "card (set w) \<le> length w"
    by (rule card_length)
  moreover have "card (set w) = length w \<longleftrightarrow> distinct w"
    using card_distinct distinct_card by blast
  ultimately show ?case
    using Cons.IH by auto
qed

text \<open>
  Claim C2, as stated: the number of lines written equals the number of lines consumed.
  With the threshold of the code, the chunk file that holds the line \<open>password\<close> twice
  gives one line of output.
\<close>

theorem mergeSortedChunks_line_count_counterexample:
  "mergeSortedChunks (\<lambda>n k. 0) [(0, unlines [''password'', ''password''])] = Inr [''password''] \<and>
   consumedLines [(0, unlines [''password'', ''password''])] = [''password'', ''password'']"
  by code_simp

text \<open>
  Claim C2, amended. When the chunk files scan without error, \<open>mergeSortedChunks\<close>
  succeeds, and the number of lines it writes is the number of distinct lines of each
  window, summed over the windows (the windows are consecutive spans of the consumed
  lines): every distinct line of a window gives exactly one line of output. So the
  output never has more lines than were consumed, and it has as many exactly when no
  line occurs twice in a window. The statement is for every threshold and for every
  order among equal counts.
\<close>

theorem mergeSortedChunks_line_count:
  assumes "\<forall>(k, content)\<in>set tempDir. snd (scanLines content) = None"
  shows "\<exists>out. mergeSortedChunks_with ranks threshold tempDir = Inr out \<and>
     length out =
       sum_list (map (\<lambda>w. card (set w)) (windows threshold (consumedLines tempDir))) \<and>
     concat (windows threshold (consumedLines tempDir)) = consumedLines tempDir \<and>
     length out \<le> length (consumedLines tempDir) \<and>
     (length out = length (consumedLines tempDir) \<longleftrightarrow>
        (\<forall>w\<in>set (windows threshold (consumedLines tempDir)). distinct w))"
proof -
  let ?ws = "windows threshold (consumedLines tempDir)"
  let ?out = "concat (map (\<lambda>(i, w). map flushLine (freqPairs (ranks i) (counts w)))
                          (zip [0 ..< length ?ws] ?ws))"
  have run: "mergeSortedChunks_with ranks threshold tempDir = Inr ?out"
    using assms by (rule mergeSortedChunks_with_eq)
  have "map (\<lambda>(i, w). card (set w)) (zip [0 ..< length ?ws] ?ws) = map (\<lambda>w. card (set w)) ?ws"
    by (rule map_zip_snd) simp
  then have len: "length ?out = sum_list (map (\<lambda>w. card (set w)) ?ws)"
    by (simp only: flushes_length)
  have cat: "concat ?ws = consumedLines tempDir"
    by (simp add: windows_def windows_from_concat)
  from distinct_lines_sum [of ?ws] have
    "length ?out \<le> length (consumedLines tempDir)"
    "length ?out = length (consumedLines tempDir) \<longleftrightarrow> (\<forall>w\<in>set ?ws. distinct w)"
    unfolding len cat by blast+
  with run len cat show ?thesis
    by blast
qed

theorem mergeSortedChunks_line_count_witness:
  "\<exists>out. mergeSortedChunks_with (\<lambda>n k. 0) 2
       [(0, unlines [''a'', ''b'', ''b'']), (1, unlines [''a'', ''c'']), (2, unlines [''d''])] = Inr out \<and>
     length out = 4 \<and>
     length (consumedLines
       [(0, unlines [''a'', ''b'', ''b'']), (1, unlines [''a'', ''c'']), (2, unlines [''d''])]) = 6"
proof -
  let ?dir = "[(0, unlines [''a'', ''b'', ''b'']), (1, unlines [''a'', ''c'']), (2, unlines [''d''])]"
  have ok: "\<forall>(k, content)\<in>set ?dir. snd (scanLines content) = None"
    by code_simp
  have consumed: "consumedLines ?dir = [''a'', ''b'', ''b'', ''a'', ''c'', ''d'']"
    by code_simp
  have ws: "windows 2 [''a'', ''b'', ''b'', ''a'', ''c'', ''d''] = [[''a'', ''b'', ''b'', ''a'', ''c''], [''d'']]"
    by code_simp
  have total: "sum_list (map (\<lambda>w. card (set w)) [[''a'', ''b'', ''b'', ''a'', ''c''], [''d'']]) = 4"
    by code_simp
  from mergeSortedChunks_line_count [OF ok, of "\<lambda>n k. 0" 2]
  obtain out where "mergeSortedChunks_with (\<lambda>n k. 0) 2 ?dir = Inr out"
    and "length out = sum_list (map (\<lambda>w. card (set w)) (windows 2 (consumedLines ?dir)))"
    by blast
  then have "mergeSortedChunks_with (\<lambda>n k. 0) 2 ?dir = Inr out \<and> length out = 4"
    by (simp only: consumed ws total)
  moreover have "length (consumedLines ?dir) = 6"
    by (subst consumed) simp
  ultimately show ?thesis
    by blast
qed

subsection \<open>What a flush writes\<close>

text \<open>
  Every flush of a run is the flush of the table of a window. The flush of the table of a
  window \<open>w\<close> writes one line for each distinct line of \<open>w\<close>, in the order of decreasing
  number of occurrences in \<open>w\<close>. The line written for a key is \<open>flushLine\<close> of the key and
  its count; it is the key unchanged when the key consists of printable ASCII characters
  other than the space.
\<close>

theorem flushEntriesToFile_descending:
  "((\<forall>(k, content)\<in>set tempDir. snd (scanLines content) = None) \<longrightarrow>
      mergeSortedChunks_with ranks threshold tempDir =
        Inr (concat (map (\<lambda>(i, w). flushEntriesToFile (ranks i) (counts w) [])
                         (zip [0 ..< length (windows threshold (consumedLines tempDir))]
                              (windows threshold (consumedLines tempDir)))))) \<and>
   flushEntriesToFile rank (counts w) writer = writer @ map flushLine (freqPairs rank (counts w)) \<and>
   mset (map fst (freqPairs rank (counts w))) = mset (remdups w) \<and>
   (\<forall>(k, c)\<in>set (freqPairs rank (counts w)). c = count_list w k) \<and>
   sorted_wrt (\<lambda>p q. snd q \<le> snd p) (freqPairs rank (counts w)) \<and>
   (\<forall>(k, c)\<in>set (freqPairs rank (counts w)).
      (\<forall>b\<in>set k. 32 < (of_char b :: nat) \<and> (of_char b :: nat) < 127) \<longrightarrow> flushLine (k, c) = k)"
proof -
  let ?ps = "freqPairs rank (counts w)"
  have run: "(\<forall>(k, content)\<in>set tempDir. snd (scanLines content) = None) \<longrightarrow>
      mergeSortedChunks_with ranks threshold tempDir =
        Inr (concat (map (\<lambda>(i, w). flushEntriesToFile (ranks i) (counts w) [])
                         (zip [0 ..< length (windows threshold (consumedLines tempDir))]
                              (windows threshold (consumedLines tempDir)))))"
    by (simp add: mergeSortedChunks_with_eq flushEntriesToFile_def)
  have def: "flushEntriesToFile rank (counts w) writer = writer @ map flushLine ?ps"
    by (simp add: flushEntriesToFile_def)
  have "mset (map fst ?ps) = mset (map fst (counts w))"
    by (simp add: freqPairs_mset)
  moreover have "mset (map fst (counts w)) = mset (remdups w)"
    using counts_keys [of w] by (metis distinct_remdups_id set_eq_iff_mset_remdups_eq)
  ultimately have keys: "mset (map fst ?ps) = mset (remdups w)"
    by simp
  have "set ?ps = set (counts w)"
    using freqPairs_mset [of rank "counts w"] by (metis mset_eq_setD)
  then have cnt: "\<forall>(k, c)\<in>set ?ps. c = count_list w k"
    using counts_entry by auto
  have desc: "sorted_wrt (\<lambda>p q. snd q \<le> snd p) ?ps"
    by (rule freqPairs_descending)
  have line: "\<forall>(k, c)\<in>set ?ps.
      (\<forall>b\<in>set k. 32 < (of_char b :: nat) \<and> (of_char b :: nat) < 127) \<longrightarrow> flushLine (k, c) = k"
    using flushLine_unchanged by auto
  from run def keys cnt desc line show ?thesis
    by blast
qed

theorem flushEntriesToFile_descending_witness:
  "flushEntriesToFile (\<lambda>k. 0) (counts [''pear'', ''apple'', ''pear'', ''fig1'', ''pear'', ''apple'']) []
     = [''pear'', ''apple'', ''fig1''] \<and>
   freqPairs (\<lambda>k. 0) (counts [''pear'', ''apple'', ''pear'', ''fig1'', ''pear'', ''apple''])
     = [(''pear'', 3), (''apple'', 2), (''fig1'', 1)] \<and>
   count_list [''pear'', ''apple'', ''pear'', ''fig1'', ''pear'', ''apple''] ''pear'' = 3 \<and>
   flushLine (''pear'', 3) = ''pear'' \<and>
   mergeSortedChunks_with (\<lambda>n k. 0) 2
       [(0, unlines [''a'', ''b'', ''b'']), (1, unlines [''a'', ''c'']), (2, unlines [''d''])]
     = Inr [''a'', ''b'', ''c'', ''d'']"
proof -
  let ?w = "[''pear'', ''apple'', ''pear'', ''fig1'', ''pear'', ''apple'']"
  let ?dir = "[(0, unlines [''a'', ''b'', ''b'']), (1, unlines [''a'', ''c'']), (2, unlines [''d''])]"
  have ps: "freqPairs (\<lambda>k. 0) (counts ?w) = [(''pear'', 3), (''apple'', 2), (''fig1'', 1)]"
    by code_simp
  have clean: "\<forall>b\<in>set ''pear''. 32 < (of_char b :: nat) \<and> (of_char b :: nat) < 127"
    by simp
  have ok: "\<forall>(k, content)\<in>set ?dir. snd (scanLines content) = None"
    by code_simp
  have flushes: "concat (map (\<lambda>(i, w). flushEntriesToFile ((\<lambda>n k. 0) i) (counts w) [])
                         (zip [0 ..< length (windows 2 (consumedLines ?dir))]
                              (windows 2 (consumedLines ?dir)))) = [''a'', ''b'', ''c'', ''d'']"
    by code_simp
  have cnt: "count_list ?w ''pear'' = 3"
    by code_simp
  note facts = flushEntriesToFile_descending [of ?dir "\<lambda>n k. 0" 2 "\<lambda>k. 0" ?w "[]"]
  from facts [THEN conjunct1] ok
  have run: "mergeSortedChunks_with (\<lambda>n k. 0) 2 ?dir = Inr [''a'', ''b'', ''c'', ''d'']"
    unfolding flushes by (rule mp)
  have mem: "(''pear'', 3) \<in> set (freqPairs (\<lambda>k. 0) (counts ?w))"
    unfolding ps by simp
  from bspec [OF facts [THEN conjunct2, THEN conjunct2, THEN conjunct2, THEN conjunct2, THEN conjunct2] mem]
  have "(\<forall>b\<in>set ''pear''. 32 < (of_char b :: nat) \<and> (of_char b :: nat) < 127)
      \<longrightarrow> flushLine (''pear'', 3) = ''pear''"
    by (simp only: prod.case)
  with clean have line: "flushLine (''pear'', 3) = ''pear''"
    by (rule rev_mp)
  have out: "flushEntriesToFile (\<lambda>k. 0) (counts ?w) [] = [''pear'', ''apple'', ''fig1'']"
    by code_simp
  from out ps cnt line run show ?thesis
    by blast
qed


section \<open>The read loop of the transform stage\<close>

lemma bufferSize_pos: "0 < bufferSize"
  by (simp add: bufferSize_def)

lemma readLoop_reads:
  "readLoop L T source written =
     written @ concat (map (transformChunk L T) (reads bufferSize source))"
proof (induction L T source written rule: readLoop.induct)
  case (1 L T source written)
  show ?case
  proof (cases "source = []")
    case True
    then show ?thesis
      by (simp add: readLoop_Nil reads.simps)
  next
    case False
    then have n: "min bufferSize (length source) \<noteq> 0"
      using bufferSize_pos by simp
    then have n0: "(min bufferSize (length source) = 0) = False"
      by blast
    have tk: "take (min bufferSize (length source)) source = take bufferSize source"
      by (simp add: min_def)
    have dr: "drop (min bufferSize (length source)) source = drop bufferSize source"
      by (simp add: min_def)
    have "readLoop L T source written =
        readLoop L T (drop bufferSize source) (written @ transformChunk L T (take bufferSize source))"
      by (subst readLoop.simps) (simp only: Let_def tk dr n0 if_False)
    also have "\<dots> = (written @ transformChunk L T (take bufferSize source)) @
        concat (map (transformChunk L T) (reads bufferSize (drop bufferSize source)))"
      using "1.IH" [OF refl n] by (simp add: tk dr)
    also have "\<dots> = written @ concat (map (transformChunk L T) (reads bufferSize source))"
      using False bufferSize_pos by (subst (2) reads.simps) simp
    finally show ?thesis .
  qed
qed

lemma reads_concat: "0 < n \<Longrightarrow> concat (reads n source) = source"
proof (induction n source rule: reads.induct)
  case (1 n source)
  then show ?case
    by (subst reads.simps) auto
qed

lemma reads_sizes: "\<forall>r\<in>set (reads n source). r \<noteq> [] \<and> length r \<le> n"
proof (induction n source rule: reads.induct)
  case (1 n source)
  then show ?case
    by (subst reads.simps) auto
qed

lemma reads_full: "\<forall>r\<in>set (butlast (reads n source)). length r = n"
proof (induction n source rule: reads.induct)
  case (1 n source)
  show ?case
  proof (cases "n = 0 \<or> source = []")
    case True
    then show ?thesis
      by (subst reads.simps) simp
  next
    case False
    show ?thesis
    proof (cases "reads n (drop n source) = []")
      case True
      with False show ?thesis
        by (subst reads.simps) simp
    next
      case rest: False
      then have "drop n source \<noteq> []"
        by (auto simp: reads.simps)
      then have "length (take n source) = n"
        by simp
      with False rest "1.IH" show ?thesis
        by (subst reads.simps) simp
    qed
  qed
qed

text \<open>
  Claim C10. The bytes that the read loop writes to the target file are the transforms
  of the successive reads of the source file, one after the other; the reads are the
  pieces of 256*1024 bytes of the source, the last one shorter when the source ends, and
  each is transformed without the others. So when the first \<open>bufferSize\<close> bytes \<open>a\<close> of
  a source end inside a line, the two parts of the line go through the transform apart:
  what is written is the transform of \<open>a\<close> followed by what the loop writes for the rest.
\<close>

theorem readLoop_chunks_independent:
  "readLoop L T source [] = concat (map (transformChunk L T) (reads bufferSize source)) \<and>
   concat (reads bufferSize source) = source \<and>
   (\<forall>r\<in>set (reads bufferSize source). r \<noteq> [] \<and> length r \<le> bufferSize) \<and>
   (\<forall>r\<in>set (butlast (reads bufferSize source)). length r = bufferSize) \<and>
   bufferSize = 256 * 1024 \<and>
   (length a = bufferSize \<longrightarrow>
      readLoop L T (a @ b) [] = transformChunk L T a @ readLoop L T b [])"
proof -
  have split: "readLoop L T (a @ b) [] = transformChunk L T a @ readLoop L T b []"
    if "length a = bufferSize"
  proof -
    from that bufferSize_pos have "a \<noteq> []"
      by auto
    with that have "reads bufferSize (a @ b) = a # reads bufferSize b"
      using bufferSize_pos by (subst reads.simps) simp
    then show ?thesis
      by (simp add: readLoop_reads)
  qed
  show ?thesis
    using readLoop_reads [of L T source "[]"] reads_concat [OF bufferSize_pos, of source]
      reads_sizes [of bufferSize source] reads_full [of bufferSize source] split
    by (simp add: bufferSize_def)
qed

theorem readLoop_chunks_independent_witness:
  "length (replicate 262139 CHR ''x'' @ [nl] @ ''pass'') = bufferSize \<and>
   readLoop latin1Letters titleWords ((replicate 262139 CHR ''x'' @ [nl] @ ''pass'') @ (''word'' @ [nl])) []
     = transformChunk latin1Letters titleWords (replicate 262139 CHR ''x'' @ [nl] @ ''pass'') \<and>
   readLoop latin1Letters titleWords (unlines [''password'', ''hunter2'']) [] = unlines [''password'', ''hunter''] \<and>
   reads bufferSize (unlines [''password'', ''hunter2'']) = [unlines [''password'', ''hunter2'']] \<and>
   transformChunk latin1Letters titleWords (''password'' @ [nl]) = ''password'' @ [nl]"
proof -
  let ?a = "replicate 262139 CHR ''x'' @ [nl] @ ''pass''"
  have len: "length ?a = bufferSize"
    by (simp add: bufferSize_def)
  have rest: "readLoop latin1Letters titleWords (''word'' @ [nl]) [] = []"
    by code_simp
  have small: "readLoop latin1Letters titleWords (unlines [''password'', ''hunter2'']) []
      = unlines [''password'', ''hunter'']"
    by code_simp
  have rd: "reads bufferSize (unlines [''password'', ''hunter2'']) = [unlines [''password'', ''hunter2'']]"
    by code_simp
  have whole: "transformChunk latin1Letters titleWords (''password'' @ [nl]) = ''password'' @ [nl]"
    by code_simp
  from readLoop_chunks_independent [of latin1Letters titleWords "unlines [''password'', ''hunter2'']" ?a "''word'' @ [nl]"] len
  have "readLoop latin1Letters titleWords (?a @ (''word'' @ [nl])) []
      = transformChunk latin1Letters titleWords ?a @ readLoop latin1Letters titleWords (''word'' @ [nl]) []"
    by blast
  with len rest small rd whole show ?thesis
    by simp
qed

section \<open>The length bound of the transform stage\<close>

subsection \<open>Length enforcement\<close>

lemma EnforceLengthRange_loop_eq:
  "EnforceLengthRange_loop ls lo hi acc =
     acc @ filter (\<lambda>l. lo \<le> length l \<and> length l \<le> hi) ls"
  by (induction ls arbitrary: acc) auto

lemma EnforceLengthRange_eq:
  "EnforceLengthRange input lo hi =
     Join (filter (\<lambda>l. lo \<le> length l \<and> length l \<le> hi) (Split_nl input)) [nl]"
  by (simp add: EnforceLengthRange_def EnforceLengthRange_loop_eq)

lemma Split_from_pieces:
  "p \<in> set (Split_from cur s) \<Longrightarrow> nl \<notin> set cur \<Longrightarrow> nl \<notin> set p \<and> set p \<subseteq> set cur \<union> set s"
proof (induction s arbitrary: cur)
  case Nil
  then show ?case by simp
next
  case (Cons c cs)
  show ?case
  proof (cases "c = nl")
    case True
    with Cons.prems have "p = cur \<or> p \<in> set (Split_from [] cs)"
      by simp
    then show ?thesis
    proof
      assume "p = cur"
      with Cons.prems show ?thesis by auto
    next
      assume "p \<in> set (Split_from [] cs)"
      from Cons.IH [OF this] show ?thesis by auto
    qed
  next
    case False
    with Cons.prems have "p \<in> set (Split_from (cur @ [c]) cs)" and "nl \<notin> set (cur @ [c])"
      by auto
    from Cons.IH [OF this] show ?thesis by auto
  qed
qed

lemma Split_nl_pieces: "p \<in> set (Split_nl s) \<Longrightarrow> nl \<notin> set p \<and> set p \<subseteq> set s"
  using Split_from_pieces [of p "[]" s] by (simp add: Split_nl_def)

subsection \<open>Scanning joined lines\<close>

lemma takeWhile_line: "nl \<notin> set l \<Longrightarrow> takeWhile (\<lambda>c. c \<noteq> nl) (l @ nl # rest) = l"
  by (induction l) auto

lemma takeWhile_last_line: "nl \<notin> set l \<Longrightarrow> takeWhile (\<lambda>c. c \<noteq> nl) l = l"
  by (induction l) auto

lemma scanLines_Join:
  assumes "\<forall>l\<in>set ls. l \<noteq> [] \<and> nl \<notin> set l \<and> length l < MaxScanTokenSize"
  shows "scanLines (Join ls [nl]) = (map dropCR ls, None)"
  using assms
proof (induction ls "[nl]" rule: Join.induct)
  case 1
  show ?case by simp
next
  case (2 a)
  then have a: "a \<noteq> []" "nl \<notin> set a" "length a < MaxScanTokenSize"
    by simp_all
  then show ?case
    by (subst scanLines.simps) (simp add: takeWhile_last_line Let_def)
next
  case (3 a b rest)
  then have a: "nl \<notin> set a" "length a < MaxScanTokenSize"
    by simp_all
  have IH: "scanLines (Join (b # rest) [nl]) = (map dropCR (b # rest), None)"
    using 3 by simp
  have tw: "takeWhile (\<lambda>c. c \<noteq> nl) (a @ nl # Join (b # rest) [nl]) = a"
    using a(1) by (rule takeWhile_line)
  show ?case
    using a(2) by (subst scanLines.simps) (simp add: tw Let_def IH)
qed

lemma length_dropCR: "length (dropCR l) \<le> length l"
  by (simp add: dropCR_def)

lemma dropCR_noCR: "CHR 0x0D \<notin> set l \<Longrightarrow> dropCR l = l"
  by (cases l rule: rev_cases) (auto simp: dropCR_def)

lemma fileLines_filterLines:
  "fileLines (filterLines L data) =
     filter (\<lambda>line. \<not> IsAllDigitsOrSpecialChars L line \<and> ContainsOnlyASCII line
                      \<and> LikelyContainsWords L line) (scannedLines data)"
proof -
  have "\<forall>l\<in>set (filter (\<lambda>line. \<not> IsAllDigitsOrSpecialChars L line \<and> ContainsOnlyASCII line
                      \<and> LikelyContainsWords L line) (scannedLines data)). nl \<notin> set l"
    using scannedLines_no_nl [of data] by simp
  then show ?thesis
    unfolding filterLines_eq by (rule fileLines_unlines)
qed

lemma scannedLines_EnforceLengthRange:
  "scannedLines (EnforceLengthRange input 4 32) =
     map dropCR (filter (\<lambda>l. 4 \<le> length l \<and> length l \<le> 32) (Split_nl input))"
proof -
  have "\<forall>l\<in>set (filter (\<lambda>l. 4 \<le> length l \<and> length l \<le> 32) (Split_nl input)).
          l \<noteq> [] \<and> nl \<notin> set l \<and> length l < MaxScanTokenSize"
    using Split_nl_pieces by (auto simp: MaxScanTokenSize_def)
  from scanLines_Join [OF this] show ?thesis
    by (simp add: scannedLines_def EnforceLengthRange_eq)
qed

text \<open>Whatever reaches the length enforcement step, the lines that leave the final filter
  have between 4 and 32 bytes.\<close>

lemma final_lines_bounded:
  "\<forall>l\<in>set (fileLines (filterLines L (EnforceLengthRange input 4 32))).
     4 \<le> length l \<and> length l \<le> 32"
proof
  fix l assume "l \<in> set (fileLines (filterLines L (EnforceLengthRange input 4 32)))"
  then have words: "LikelyContainsWords L l"
    and "l \<in> set (scannedLines (EnforceLengthRange input 4 32))"
    by (simp_all add: fileLines_filterLines)
  then obtain p where "l = dropCR p" and "length p \<le> 32"
    by (auto simp: scannedLines_EnforceLengthRange)
  then have "length l \<le> 32"
    using length_dropCR [of p] by simp
  moreover from words have "5 \<le> length l"
    by (simp add: LikelyContainsWords_def split: if_splits)
  ultimately show "4 \<le> length l \<and> length l \<le> 32"
    by simp
qed

lemma transformChunk_unlines:
  "transformChunk L T buffer = unlines (fileLines (transformChunk L T buffer))"
  by (simp add: transformChunk_def fileLines_filterLines) (simp add: filterLines_eq)

lemma transformChunk_no_nl: "\<forall>l\<in>set (fileLines (transformChunk L T buffer)). nl \<notin> set l"
  using scannedLines_no_nl by (auto simp: transformChunk_def fileLines_filterLines)

lemma unlines_concat: "concat (map unlines lss) = unlines (concat lss)"
  by (induction lss) (simp_all add: unlines_def)

lemma readLoop_lines:
  "fileLines (readLoop L T source []) =
     concat (map (\<lambda>r. fileLines (transformChunk L T r)) (reads bufferSize source))"
proof -
  let ?lss = "map (\<lambda>r. fileLines (transformChunk L T r)) (reads bufferSize source)"
  have "map (transformChunk L T) (reads bufferSize source) = map unlines ?lss"
    using transformChunk_unlines by simp
  then have "readLoop L T source [] = unlines (concat ?lss)"
    by (simp add: readLoop_reads unlines_concat del: map_map)
  moreover have "\<forall>l\<in>set (concat ?lss). nl \<notin> set l"
    using transformChunk_no_nl by auto
  ultimately show ?thesis
    by (simp add: fileLines_unlines del: map_map)
qed

subsection \<open>No carriage return reaches the length enforcement step\<close>

lemma decode_bytes: "concat (map snd (decode s)) = s"
proof (induction s rule: decode.induct)
  case (1 s)
  show ?case
  proof (cases "s = []")
    case True
    then show ?thesis by simp
  next
    case False
    obtain r n where d: "DecodeRuneInString s = (r, n)"
      by (cases "DecodeRuneInString s")
    from "1.IH" [OF False d [symmetric]] False d show ?thesis
      by (subst decode.simps) simp
  qed
qed

lemma RemoveControlChars_subset: "set (RemoveControlChars s) \<subseteq> set s"
proof -
  have "set (RemoveControlChars s) \<subseteq> set (concat (map snd (decode s)))"
    by (auto simp: RemoveControlChars_def)
  then show ?thesis
    by (simp only: decode_bytes)
qed

lemma lowerByte_CR: "lowerByte c = CHR 0x0D \<Longrightarrow> c = CHR 0x0D"
proof -
  assume a: "lowerByte c = CHR 0x0D"
  show ?thesis
  proof (cases "map_of (zip ''ABCDEFGHIJKLMNOPQRSTUVWXYZ'' ''abcdefghijklmnopqrstuvwxyz'') c")
    case None
    with a show ?thesis by (simp add: lowerByte_def)
  next
    case (Some l)
    then have "l \<in> set ''abcdefghijklmnopqrstuvwxyz''"
      by (meson in_set_zipE map_of_SomeD)
    moreover from a Some have "l = CHR 0x0D"
      by (simp add: lowerByte_def)
    ultimately show ?thesis by simp
  qed
qed

lemma removeByte_subset: "set (removeByte b s) \<subseteq> set s"
  by (auto simp: removeByte_def)

lemma removeByte_gone: "b \<notin> set (removeByte b s)"
  by (simp add: removeByte_def)

lemma ToLower_ascii_noCR: "CHR 0x0D \<notin> set s \<Longrightarrow> CHR 0x0D \<notin> set (ToLower_ascii s)"
proof
  assume no: "CHR 0x0D \<notin> set s" and "CHR 0x0D \<in> set (ToLower_ascii s)"
  then obtain x where "x \<in> set s" and "lowerByte x = CHR 0x0D"
    by (auto simp: ToLower_ascii_def)
  with no show False
    using lowerByte_CR by blast
qed

lemma prepareLine_noCR:
  assumes "\<forall>s. CHR 0x0D \<notin> set s \<longrightarrow> CHR 0x0D \<notin> set (T s)"
  shows "CHR 0x0D \<notin> set (prepareLine T line)"
proof -
  define c3 where "c3 = removeByte CHR 0x0D (removeByte CHR 0x09 (removeByte CHR 0x0A
      (removeByte CHR 0x00 line)))"
  define clean where "clean = ToLower_ascii (RemoveControlChars (removeByte CHR 0x0B
      (removeByte CHR 0x0C c3)))"
  have "CHR 0x0D \<notin> set c3"
    unfolding c3_def by (rule removeByte_gone)
  then have "CHR 0x0D \<notin> set (removeByte CHR 0x0B (removeByte CHR 0x0C c3))"
    using removeByte_subset by blast
  then have "CHR 0x0D \<notin> set (RemoveControlChars (removeByte CHR 0x0B (removeByte CHR 0x0C c3)))"
    using RemoveControlChars_subset by blast
  then have clean: "CHR 0x0D \<notin> set clean"
    unfolding clean_def by (rule ToLower_ascii_noCR)
  with assms have caser: "CHR 0x0D \<notin> set (T clean)"
    by blast
  have eq: "prepareLine T line =
      (if CHR '' '' \<in> set clean then removeByte CHR '' '' (T clean)
       else removeByte CHR '' '' clean)"
    by (simp add: prepareLine_def Let_def clean_def c3_def)
  show ?thesis
  proof (cases "CHR '' '' \<in> set clean")
    case True
    with eq have "prepareLine T line = removeByte CHR '' '' (T clean)"
      by (simp only: if_True)
    with caser show ?thesis
      using removeByte_subset [of "CHR '' ''" "T clean"] by auto
  next
    case False
    with eq have "prepareLine T line = removeByte CHR '' '' clean"
      by (simp only: if_False)
    with clean show ?thesis
      using removeByte_subset [of "CHR '' ''" clean] by auto
  qed
qed

lemma Join_bytes: "set (Join ls sep) \<subseteq> \<Union> (set ` set ls) \<union> set sep"
  by (induction ls sep rule: Join.induct) auto

lemma scanLines_subset: "\<forall>l\<in>set (fst (scanLines data)). set l \<subseteq> set data"
proof (induction data rule: scanLines.induct)
  case (1 data)
  show ?case
  proof (cases "data = [] \<or> MaxScanTokenSize \<le> length (takeWhile (\<lambda>c. c \<noteq> nl) data)")
    case True
    then show ?thesis
      by (subst scanLines.simps) (auto simp: Let_def)
  next
    case False
    define line where "line = takeWhile (\<lambda>c. c \<noteq> nl) data"
    define rest where "rest = drop (length line + 1) data"
    from False have IH: "\<forall>l\<in>set (fst (scanLines rest)). set l \<subseteq> set rest"
      using "1.IH" [OF _ refl] by (simp add: line_def rest_def)
    have "set line \<subseteq> set data"
      unfolding line_def by (auto dest: set_takeWhileD)
    then have head: "set (dropCR line) \<subseteq> set data"
      using dropCR_subset [of line] by blast
    have "set rest \<subseteq> set data"
      unfolding rest_def by (rule set_drop_subset)
    with IH have tail: "\<forall>l\<in>set (fst (scanLines rest)). set l \<subseteq> set data"
      by blast
    have "fst (scanLines data) = dropCR line # fst (scanLines rest)"
      using False by (subst scanLines.simps) (simp add: Let_def line_def rest_def split: prod.splits)
    with head tail show ?thesis
      by simp
  qed
qed

lemma scannedLines_noCR:
  "CHR 0x0D \<notin> set data \<Longrightarrow> l \<in> set (scannedLines data) \<Longrightarrow> CHR 0x0D \<notin> set l"
  using scanLines_subset [of data] by (auto simp: scannedLines_def)

lemma TrimRightFunc_subset: "set (TrimRightFunc s f) \<subseteq> set s"
proof -
  have "set (take n s) \<subseteq> set s" for n
    by (rule set_take_subset)
  then show ?thesis
    by (simp add: TrimRightFunc_def Let_def)
qed

lemma TrimLeftFunc_subset: "set (TrimLeftFunc s f) \<subseteq> set s"
proof -
  have "set (drop n s) \<subseteq> set s" for n
    by (rule set_drop_subset)
  then show ?thesis
    by (simp add: TrimLeftFunc_def Let_def)
qed

lemma unlines_noCR:
  "(\<And>l. l \<in> set ls \<Longrightarrow> CHR 0x0D \<notin> set l) \<Longrightarrow> CHR 0x0D \<notin> set (unlines ls)"
  by (auto simp: unlines_def nl_def)

lemma beforeLengthBound_noCR:
  assumes "\<forall>s. CHR 0x0D \<notin> set s \<longrightarrow> CHR 0x0D \<notin> set (T s)"
  shows "CHR 0x0D \<notin> set (beforeLengthBound L T buffer)"
proof -
  define prepared where
    "prepared = PrepareStringForTransformations T (GenerateNGramSliceBytes buffer 1 5)"
  define joined where "joined = Join prepared [nl]"
  define filtered where "filtered = filterLines L joined"
  define trailing where "trailing = removeTrailingDigits filtered"
  have "\<And>l. l \<in> set prepared \<Longrightarrow> CHR 0x0D \<notin> set l"
    using prepareLine_noCR [OF assms]
    by (auto simp: prepared_def PrepareStringForTransformations_def)
  then have "CHR 0x0D \<notin> \<Union> (set ` set prepared) \<union> set [nl]"
    by (auto simp: nl_def)
  then have joined: "CHR 0x0D \<notin> set joined"
    using Join_bytes [of prepared "[nl]"] unfolding joined_def by blast
  have filtered: "CHR 0x0D \<notin> set filtered"
    unfolding filtered_def filterLines_eq
    by (rule unlines_noCR) (use joined scannedLines_noCR in auto)
  have trailing: "CHR 0x0D \<notin> set trailing"
    unfolding trailing_def removeTrailingDigits_def
  proof (rule unlines_noCR)
    fix l assume "l \<in> set (map (\<lambda>line. TrimRightFunc line isDigit) (scannedLines filtered))"
    then obtain line where "line \<in> set (scannedLines filtered)" and l: "l = TrimRightFunc line isDigit"
      by auto
    then have "CHR 0x0D \<notin> set line"
      using filtered scannedLines_noCR by blast
    then show "CHR 0x0D \<notin> set l"
      unfolding l using TrimRightFunc_subset by blast
  qed
  have "CHR 0x0D \<notin> set (removeLeadingDigits trailing)"
    unfolding removeLeadingDigits_def
  proof (rule unlines_noCR)
    fix l assume "l \<in> set (map (\<lambda>line. TrimLeftFunc line isDigit) (scannedLines trailing))"
    then obtain line where "line \<in> set (scannedLines trailing)" and l: "l = TrimLeftFunc line isDigit"
      by auto
    then have "CHR 0x0D \<notin> set line"
      using trailing scannedLines_noCR by blast
    then show "CHR 0x0D \<notin> set l"
      unfolding l using TrimLeftFunc_subset by blast
  qed
  then show ?thesis
    by (simp add: beforeLengthBound_def Let_def trailing_def filtered_def joined_def prepared_def)
qed

lemma transformChunk_lines:
  assumes "\<forall>s. CHR 0x0D \<notin> set s \<longrightarrow> CHR 0x0D \<notin> set (T s)"
  shows "fileLines (transformChunk L T buffer) =
     filter (\<lambda>l. \<not> IsAllDigitsOrSpecialChars L l \<and> ContainsOnlyASCII l \<and> LikelyContainsWords L l)
       (filter (\<lambda>l. 4 \<le> length l \<and> length l \<le> 32) (Split_nl (beforeLengthBound L T buffer)))"
proof -
  define kept where
    "kept = filter (\<lambda>l. 4 \<le> length l \<and> length l \<le> 32) (Split_nl (beforeLengthBound L T buffer))"
  have "CHR 0x0D \<notin> set p" if "p \<in> set kept" for p
  proof -
    from that have "p \<in> set (Split_nl (beforeLengthBound L T buffer))"
      by (simp add: kept_def)
    then have "set p \<subseteq> set (beforeLengthBound L T buffer)"
      using Split_nl_pieces by blast
    then show ?thesis
      using beforeLengthBound_noCR [OF assms, of L buffer] by blast
  qed
  then have "map dropCR kept = kept"
    by (intro map_idI) (simp add: dropCR_noCR)
  then show ?thesis
    by (simp add: transformChunk_def fileLines_filterLines scannedLines_EnforceLengthRange
        kept_def [symmetric])
qed

lemma upperByte_CR: "upperByte c = CHR 0x0D \<Longrightarrow> c = CHR 0x0D"
proof -
  assume a: "upperByte c = CHR 0x0D"
  show ?thesis
  proof (cases "map_of (zip ''abcdefghijklmnopqrstuvwxyz'' ''ABCDEFGHIJKLMNOPQRSTUVWXYZ'') c")
    case None
    with a show ?thesis by (simp add: upperByte_def)
  next
    case (Some u)
    then have "u \<in> set ''ABCDEFGHIJKLMNOPQRSTUVWXYZ''"
      by (meson in_set_zipE map_of_SomeD)
    moreover from a Some have "u = CHR 0x0D"
      by (simp add: upperByte_def)
    ultimately show ?thesis by simp
  qed
qed

lemma titleWords_from_noCR:
  "CHR 0x0D \<notin> set s \<Longrightarrow> CHR 0x0D \<notin> set (titleWords_from b s)"
proof (induction s arbitrary: b)
  case Nil
  show ?case by simp
next
  case (Cons c cs)
  then have c: "c \<noteq> CHR 0x0D" and cs: "CHR 0x0D \<notin> set cs"
    by auto
  from c have "upperByte c \<noteq> CHR 0x0D"
    using upperByte_CR by blast
  with c Cons.IH [OF cs] show ?case
    by auto
qed

lemma titleWords_noCR: "\<forall>s. CHR 0x0D \<notin> set s \<longrightarrow> CHR 0x0D \<notin> set (titleWords s)"
  by (simp add: titleWords_def titleWords_from_noCR)

subsection \<open>The bound on the lines written\<close>

text \<open>
  Claim C7. Every line that the transform stage writes to the intermediate file, for one
  read of the source and for the whole read loop, has between 4 and 32 bytes, and what is
  written for a read consists of these lines, each ended by a newline. The length
  enforcement step \<open>EnforceLengthRange\<close> keeps exactly the strings between newlines whose
  length is within the bounds given, in their order. The final filter pass after it only
  removes lines: when the title caser brings no carriage return into a string that has
  none, the lines written are the strings kept by the length enforcement step that pass
  the three tests of the filter, unchanged and in their order.
\<close>

theorem transform_length_bound:
  "(\<forall>l\<in>set (fileLines (readLoop L T source [])). 4 \<le> length l \<and> length l \<le> 32) \<and>
   (\<forall>l\<in>set (fileLines (transformChunk L T buffer)). 4 \<le> length l \<and> length l \<le> 32) \<and>
   transformChunk L T buffer = unlines (fileLines (transformChunk L T buffer)) \<and>
   EnforceLengthRange input lo hi =
     Join (filter (\<lambda>l. lo \<le> length l \<and> length l \<le> hi) (Split_nl input)) [nl] \<and>
   ((\<forall>s. CHR 0x0D \<notin> set s \<longrightarrow> CHR 0x0D \<notin> set (T s)) \<longrightarrow>
      fileLines (transformChunk L T buffer) =
        filter (\<lambda>l. \<not> IsAllDigitsOrSpecialChars L l \<and> ContainsOnlyASCII l \<and> LikelyContainsWords L l)
          (filter (\<lambda>l. 4 \<le> length l \<and> length l \<le> 32) (Split_nl (beforeLengthBound L T buffer))))"
proof -
  have chunk: "\<forall>l\<in>set (fileLines (transformChunk L T r)). 4 \<le> length l \<and> length l \<le> 32" for r
    using final_lines_bounded [of L "beforeLengthBound L T r"] by (simp add: transformChunk_def)
  have "\<forall>l\<in>set (fileLines (readLoop L T source [])). 4 \<le> length l \<and> length l \<le> 32"
  proof
    fix l assume "l \<in> set (fileLines (readLoop L T source []))"
    then obtain r where "l \<in> set (fileLines (transformChunk L T r))"
      by (auto simp: readLoop_lines)
    with chunk show "4 \<le> length l \<and> length l \<le> 32"
      by blast
  qed
  moreover note chunk [of buffer]
  moreover have "transformChunk L T buffer = unlines (fileLines (transformChunk L T buffer))"
    by (rule transformChunk_unlines)
  moreover note EnforceLengthRange_eq [of "input" lo hi]
  moreover have "(\<forall>s. CHR 0x0D \<notin> set s \<longrightarrow> CHR 0x0D \<notin> set (T s)) \<longrightarrow>
      fileLines (transformChunk L T buffer) =
        filter (\<lambda>l. \<not> IsAllDigitsOrSpecialChars L l \<and> ContainsOnlyASCII l \<and> LikelyContainsWords L l)
          (filter (\<lambda>l. 4 \<le> length l \<and> length l \<le> 32) (Split_nl (beforeLengthBound L T buffer)))"
    using transformChunk_lines [of T L buffer] by blast
  ultimately show ?thesis
    by blast
qed

theorem transform_length_bound_witness:
  "fileLines (readLoop latin1Letters titleWords
       (unlines [''correct horse'', ''12password34'', ''passwordpasswordpasswordpasswordpassword'']) [])
     = [''correct'', ''horse'', ''CorrectHorse'', ''password''] \<and>
   Split_nl (beforeLengthBound latin1Letters titleWords
       (unlines [''correct horse'', ''12password34'', ''passwordpasswordpasswordpasswordpassword'']))
     = [''correct'', ''horse'', ''CorrectHorse'', ''password'',
        ''passwordpasswordpasswordpasswordpassword'', []] \<and>
   fileLines (transformChunk latin1Letters titleWords
       (unlines [''correct horse'', ''12password34'', ''passwordpasswordpasswordpasswordpassword'']))
     = filter (\<lambda>l. \<not> IsAllDigitsOrSpecialChars latin1Letters l \<and> ContainsOnlyASCII l
                   \<and> LikelyContainsWords latin1Letters l)
         (filter (\<lambda>l. 4 \<le> length l \<and> length l \<le> 32)
            (Split_nl (beforeLengthBound latin1Letters titleWords
               (unlines [''correct horse'', ''12password34'',
                  ''passwordpasswordpasswordpasswordpassword''])))) \<and>
   4 \<le> length ''CorrectHorse'' \<and> length ''CorrectHorse'' \<le> 32 \<and>
   EnforceLengthRange (unlines [''abc'', ''abcd'', ''correct'']) 4 5 = ''abcd''"
proof -
  let ?buf = "unlines [''correct horse'', ''12password34'', ''passwordpasswordpasswordpasswordpassword'']"
  note bound = transform_length_bound [of latin1Letters titleWords ?buf ?buf
      "unlines [''abc'', ''abcd'', ''correct'']" 4 5]
  have written: "fileLines (readLoop latin1Letters titleWords ?buf [])
      = [''correct'', ''horse'', ''CorrectHorse'', ''password'']"
    by code_simp
  have before: "Split_nl (beforeLengthBound latin1Letters titleWords ?buf)
      = [''correct'', ''horse'', ''CorrectHorse'', ''password'',
         ''passwordpasswordpasswordpasswordpassword'', []]"
    by code_simp
  have enforced: "EnforceLengthRange (unlines [''abc'', ''abcd'', ''correct'']) 4 5 = ''abcd''"
    by code_simp
  from bound
  have "\<forall>l\<in>set (fileLines (readLoop latin1Letters titleWords ?buf [])). 4 \<le> length l \<and> length l \<le> 32"
    by blast
  then have "\<forall>l\<in>set [''correct'', ''horse'', ''CorrectHorse'', ''password'']. 4 \<le> length l \<and> length l \<le> 32"
    by (simp only: written)
  then have len: "4 \<le> length ''CorrectHorse'' \<and> length ''CorrectHorse'' \<le> 32"
    by simp
  from bound titleWords_noCR
  have kept: "fileLines (transformChunk latin1Letters titleWords ?buf)
     = filter (\<lambda>l. \<not> IsAllDigitsOrSpecialChars latin1Letters l \<and> ContainsOnlyASCII l
                   \<and> LikelyContainsWords latin1Letters l)
         (filter (\<lambda>l. 4 \<le> length l \<and> length l \<le> 32)
            (Split_nl (beforeLengthBound latin1Letters titleWords ?buf)))"
    by blast
  from written before kept len enforced show ?thesis
    by blast
qed


section \<open>The generation run\<close>

text \<open>
  Claim C4 says that nothing of the target file's previous content survives a run. The
  target file is opened without \<open>O_TRUNC\<close>: when the transform stage writes fewer bytes
  than the file held, the rest of the old bytes stays in the intermediate file and is
  sorted into the result. With the source \<open>monkey\<close> and a target file that held the
  lines \<open>password\<close> and \<open>letmein\<close>, the run succeeds and leaves \<open>d\<close>, \<open>letmein\<close> and
  \<open>monkey\<close>; on an empty target file the same source gives \<open>monkey\<close> alone.
\<close>

theorem CreateWizardWordlist_keeps_old_tail:
  "CreateWizardWordlist latin1Letters titleWords (\<lambda>n k. 0)
      (unlines [''monkey'']) (unlines [''password'', ''letmein''])
     = Inr (unlines [''d'', ''letmein'', ''monkey'']) \<and>
   CreateWizardWordlist latin1Letters titleWords (\<lambda>n k. 0) (unlines [''monkey'']) []
     = Inr (unlines [''monkey''])"
  by code_simp


subsection \<open>The count suffix at the flush\<close>

text \<open>
  Before it writes a key, \<open>flushEntriesToFile\<close> removes from it the suffix made of a space
  and the count of the key. The count is never appended to a key: the table is filled by
  \<open>increment\<close>, whose keys are the lines read. No line that the transform stage writes
  holds a space, whatever the title caser returns, since the last step of \<open>prepareLine\<close>
  removes every space and the later steps only drop bytes and lines; on these lines the
  suffix step removes nothing.
\<close>

lemma prepareLine_no_space: "CHR '' '' \<notin> set (prepareLine T line)"
  by (simp add: prepareLine_def Let_def removeByte_gone)

lemma scannedLines_no_space:
  "CHR '' '' \<notin> set data \<Longrightarrow> l \<in> set (scannedLines data) \<Longrightarrow> CHR '' '' \<notin> set l"
  using scanLines_subset [of data] by (auto simp: scannedLines_def)

lemma unlines_no_space:
  "(\<And>l. l \<in> set ls \<Longrightarrow> CHR '' '' \<notin> set l) \<Longrightarrow> CHR '' '' \<notin> set (unlines ls)"
  by (auto simp: unlines_def nl_def)

lemma beforeLengthBound_no_space: "CHR '' '' \<notin> set (beforeLengthBound L T buffer)"
proof -
  define prepared where
    "prepared = PrepareStringForTransformations T (GenerateNGramSliceBytes buffer 1 5)"
  define joined where "joined = Join prepared [nl]"
  define filtered where "filtered = filterLines L joined"
  define trailing where "trailing = removeTrailingDigits filtered"
  have "\<And>l. l \<in> set prepared \<Longrightarrow> CHR '' '' \<notin> set l"
    using prepareLine_no_space [of T]
    by (auto simp: prepared_def PrepareStringForTransformations_def)
  then have "CHR '' '' \<notin> \<Union> (set ` set prepared) \<union> set [nl]"
    by (auto simp: nl_def)
  then have joined: "CHR '' '' \<notin> set joined"
    using Join_bytes [of prepared "[nl]"] unfolding joined_def by blast
  have filtered: "CHR '' '' \<notin> set filtered"
    unfolding filtered_def filterLines_eq
    by (rule unlines_no_space) (use joined scannedLines_no_space in auto)
  have trailing: "CHR '' '' \<notin> set trailing"
    unfolding trailing_def removeTrailingDigits_def
  proof (rule unlines_no_space)
    fix l assume "l \<in> set (map (\<lambda>line. TrimRightFunc line isDigit) (scannedLines filtered))"
    then obtain line where "line \<in> set (scannedLines filtered)" and l: "l = TrimRightFunc line isDigit"
      by auto
    then have "CHR '' '' \<notin> set line"
      using filtered scannedLines_no_space by blast
    then show "CHR '' '' \<notin> set l"
      unfolding l using TrimRightFunc_subset by blast
  qed
  have "CHR '' '' \<notin> set (removeLeadingDigits trailing)"
    unfolding removeLeadingDigits_def
  proof (rule unlines_no_space)
    fix l assume "l \<in> set (map (\<lambda>line. TrimLeftFunc line isDigit) (scannedLines trailing))"
    then obtain line where "line \<in> set (scannedLines trailing)" and l: "l = TrimLeftFunc line isDigit"
      by auto
    then have "CHR '' '' \<notin> set line"
      using trailing scannedLines_no_space by blast
    then show "CHR '' '' \<notin> set l"
      unfolding l using TrimLeftFunc_subset by blast
  qed
  then show ?thesis
    by (simp add: beforeLengthBound_def Let_def trailing_def filtered_def joined_def prepared_def)
qed

lemma transformChunk_no_space:
  assumes "l \<in> set (fileLines (transformChunk L T r))"
  shows "CHR '' '' \<notin> set l"
proof -
  from assms have "l \<in> set (scannedLines (EnforceLengthRange (beforeLengthBound L T r) 4 32))"
    by (simp add: transformChunk_def fileLines_filterLines)
  then obtain p where l: "l = dropCR p" and "p \<in> set (Split_nl (beforeLengthBound L T r))"
    by (auto simp: scannedLines_EnforceLengthRange)
  then have "set p \<subseteq> set (beforeLengthBound L T r)"
    using Split_nl_pieces by blast
  then have "CHR '' '' \<notin> set p"
    using beforeLengthBound_no_space [of L T r] by blast
  then show ?thesis
    unfolding l using dropCR_subset [of p] by blast
qed

lemma readLoop_no_space:
  "\<forall>l\<in>set (fileLines (readLoop L T source [])). CHR '' '' \<notin> set l"
  by (auto simp: readLoop_lines dest: transformChunk_no_space)

lemma written_line_keeps_suffix:
  "l \<in> set (fileLines (readLoop L T source [])) \<Longrightarrow> TrimSuffix l ('' '' @ itoa c) = l"
  using readLoop_no_space [of L T source] by (intro TrimSuffix_no_space) blast

text \<open>
  Claim C3 says that a flush writes each key of the table as one line containing the key
  unchanged. A key that ends with a space and its own count is written without this end.
  Such a key comes from what the target file held before the run, which the run leaves in
  place behind the bytes it writes: with the source \<open>monkey\<close> and a target file that held
  the lines \<open>monkey\<close> and \<open>abc 1\<close>, the intermediate file holds these two lines, the table
  of its only window has the key \<open>abc 1\<close> with count 1, and the flush writes the lines
  \<open>abc\<close> and \<open>monkey\<close>. When the line \<open>abc 1\<close> occurs twice, its count is 2 and the key is
  written unchanged.
\<close>

theorem flushEntriesToFile_trims_count_suffix:
  "overwrite (unlines [''monkey'', ''abc 1''])
       (readLoop latin1Letters titleWords (unlines [''monkey'']) [])
     = unlines [''monkey'', ''abc 1''] \<and>
   consumedLines (fst (processFileChunksToTempFiles (unlines [''monkey'', ''abc 1'']))) =
     [''abc 1'', ''monkey''] \<and>
   counts [''abc 1'', ''monkey''] = [(''abc 1'', 1), (''monkey'', 1)] \<and>
   flushEntriesToFile (\<lambda>k. 0) (counts [''abc 1'', ''monkey'']) [] = [''abc'', ''monkey''] \<and>
   CreateWizardWordlist latin1Letters titleWords (\<lambda>n k. 0)
       (unlines [''monkey'']) (unlines [''monkey'', ''abc 1''])
     = Inr (unlines [''abc'', ''monkey'']) \<and>
   flushEntriesToFile (\<lambda>k. 0) (counts [''abc 1'', ''abc 1'']) [] = [''abc 1'']"
  by code_simp


end
